theory Spec2Isabelle
  imports Main
begin

section \<open>Data model\<close>

text \<open>
  The domain record \<open>PaperRoll\<close> (declared in \<open>types.ts\<close>, used field by field in
  \<open>Code.gs\<close> and \<open>App.tsx\<close>). Every field is kept as the string the spreadsheet
  displays (\<open>getDisplayValues\<close>).
\<close>

record PaperRoll =
  sku :: string
  purpose :: string
  packageId :: string
  type :: string
  gsm :: string
  supplier :: string
  manufacturer :: string
  importDate :: string
  prodDate :: string
  lengthCm :: string
  widthCm :: string
  weight :: string
  quantity :: string
  customerOrder :: string
  materialCode :: string
  location :: string
  pendingOut :: string
  importer :: string
  updatedAt :: string

text \<open>
  \<open>interface QueueItem { id; data; timestamp; retryCount }\<close>. The field \<open>id\<close> is
  \<open>id_q\<close> here (\<open>id\<close> is the identity function of HOL).
\<close>

record QueueItem =
  id_q :: string
  data :: PaperRoll
  timestamp :: nat
  retryCount :: nat

text \<open>
  An element of \<open>batchItems\<close>: \<open>{ ...b.data, _clientQueueId: b.id }\<close>, the payload
  with the queue id attached as the idempotency token.
\<close>

record BatchItem =
  payload :: PaperRoll
  clientQueueId :: string

text \<open>
  The React state of \<open>useSyncWorker\<close> (and of the same code inlined in \<open>App.tsx\<close>):
  four \<open>useState\<close> cells and the \<open>useRef\<close> guard.
\<close>

record SyncState =
  offlineQueue :: "QueueItem list"
  sessionTotal :: nat
  isSyncing :: bool
  syncIntervalMs :: int
  isSyncingRef :: bool

text \<open>
  What a running \<open>processSyncQueue\<close> call holds in its closure while it awaits the
  network: the \<open>batch\<close> it sliced and the \<open>syncIntervalMs\<close> of the render that created
  the callback.
\<close>

record Closure =
  batch :: "QueueItem list"
  closureIntervalMs :: int

datatype severity = success | error | info

datatype message =
    SavedBatch nat
  | SyncFailed string
  | NoNetwork
  | AllSynced
  | SyncStarted

type_synonym notification = "message \<times> severity"

datatype outcome = Resolved | Rejected string

section \<open>The sync worker\<close>

definition BATCH_SIZE :: nat where
  "BATCH_SIZE = 5"

definition batchItems :: "QueueItem list \<Rightarrow> BatchItem list" where
  "batchItems bs = map (\<lambda>b. \<lparr>payload = data b, clientQueueId = id_q b\<rparr>) bs"

text \<open>
  \<open>processSyncQueue\<close> up to its \<open>await\<close>: the guard, the two flags, the slice. \<open>None\<close>
  is the early \<open>return\<close>; otherwise the new state and the closure of the call in flight,
  whose \<open>batchItems\<close> are the argument of the one network call.
\<close>

definition processSyncQueue_begin :: "bool \<Rightarrow> SyncState \<Rightarrow> (SyncState \<times> Closure) option" where
  "processSyncQueue_begin onLine st =
     (if length (offlineQueue st) = 0 \<or> isSyncingRef st \<or> \<not> onLine then None
      else Some (st\<lparr>isSyncingRef := True, isSyncing := True\<rparr>,
                 \<lparr>batch = take BATCH_SIZE (offlineQueue st),
                  closureIntervalMs = syncIntervalMs st\<rparr>))"

text \<open>
  The continuation after the \<open>await\<close>, with its \<open>finally\<close> block. The three state
  setters of the \<open>try\<close> branch and the functional update of the \<open>catch\<close> branch act on
  the state at completion time; the threshold test of the \<open>catch\<close> branch reads the
  closure. The second component is what \<open>showNotification\<close> is called with.
\<close>

definition processSyncQueue_resolved :: "Closure \<Rightarrow> SyncState \<Rightarrow> SyncState \<times> notification list" where
  "processSyncQueue_resolved c st =
     (st\<lparr>offlineQueue := drop (length (batch c)) (offlineQueue st),
         syncIntervalMs := 1000,
         isSyncingRef := False,
         isSyncing := False\<rparr>,
      [(SavedBatch (length (batch c)), success)])"

definition processSyncQueue_rejected :: "Closure \<Rightarrow> string \<Rightarrow> SyncState \<Rightarrow> SyncState \<times> notification list" where
  "processSyncQueue_rejected c msg st =
     (st\<lparr>syncIntervalMs := min (syncIntervalMs st * 2) 300000,
         isSyncingRef := False,
         isSyncing := False\<rparr>,
      if closureIntervalMs c > 60000 then [(SyncFailed msg, error)] else [])"

fun processSyncQueue_settle :: "outcome \<Rightarrow> Closure \<Rightarrow> SyncState \<Rightarrow> SyncState \<times> notification list" where
  "processSyncQueue_settle Resolved c st = processSyncQueue_resolved c st"
| "processSyncQueue_settle (Rejected msg) c st = processSyncQueue_rejected c msg st"

section \<open>Queue operations and event handlers\<close>

text \<open>
  The decimal rendering of \<open>Date.now()\<close> inside the template literal
  \<open>`q-${Date.now()}`\<close>: a non-negative integer number of milliseconds.
\<close>

definition digit :: "nat \<Rightarrow> char" where
  "digit d = ''0123456789'' ! d"

fun dec :: "nat \<Rightarrow> string" where
  "dec n = (if n < 10 then [digit n] else dec (n div 10) @ [digit (n mod 10)])"

declare dec.simps [simp del]

text \<open>
  \<open>addToQueue\<close> (in \<open>App.tsx\<close>: step 3 and 4 of \<open>handleConfirmCheck\<close>). The source
  reads the clock twice, once for the id and once for the timestamp.
\<close>

definition queueItem :: "PaperRoll \<Rightarrow> nat \<Rightarrow> nat \<Rightarrow> QueueItem" where
  "queueItem item nowId nowTs =
     \<lparr>id_q = ''q-'' @ dec nowId, data = item, timestamp = nowTs, retryCount = 0\<rparr>"

definition addToQueue :: "PaperRoll \<Rightarrow> nat \<Rightarrow> nat \<Rightarrow> SyncState \<Rightarrow> SyncState" where
  "addToQueue item nowId nowTs st =
     st\<lparr>offlineQueue := offlineQueue st @ [queueItem item nowId nowTs],
        sessionTotal := sessionTotal st + 1\<rparr>"

definition handleOnline :: "SyncState \<Rightarrow> SyncState" where
  "handleOnline st =
     (if length (offlineQueue st) > 0 then st\<lparr>syncIntervalMs := 100\<rparr> else st)"

definition handleManualSync :: "bool \<Rightarrow> SyncState \<Rightarrow> SyncState \<times> notification list" where
  "handleManualSync onLine st =
     (if \<not> onLine then (st, [(NoNetwork, error)])
      else if length (offlineQueue st) = 0 then (st, [(AllSynced, success)])
      else (st\<lparr>syncIntervalMs := 100\<rparr>, [(SyncStarted, info)]))"

text \<open>
  The two effects that write state. Each runs after a render whose dependencies differ
  from those of the previous render \<open>prev\<close>: the queue length for the first, the queue
  and the interval for the second. Arming the timer writes no state and is left out.
\<close>

definition resetSessionEffect :: "SyncState \<Rightarrow> SyncState \<Rightarrow> SyncState" where
  "resetSessionEffect prev st =
     (if length (offlineQueue st) = length (offlineQueue prev) then st
      else if length (offlineQueue st) = 0 then st\<lparr>sessionTotal := 0, isSyncing := False\<rparr>
      else st)"

definition triggerLoopEffect :: "SyncState \<Rightarrow> SyncState \<Rightarrow> SyncState" where
  "triggerLoopEffect prev st =
     (if offlineQueue st = offlineQueue prev \<and> syncIntervalMs st = syncIntervalMs prev then st
      else if length (offlineQueue st) > 0 then st
      else if syncIntervalMs st \<noteq> 10000 then st\<lparr>syncIntervalMs := 10000\<rparr>
      else st)"

definition effects :: "SyncState \<Rightarrow> SyncState \<Rightarrow> SyncState" where
  "effects prev st = triggerLoopEffect prev (resetSessionEffect prev st)"

section \<open>The engine as a transition system\<close>

text \<open>
  The hook's state together with what is outside it: the network calls that have not
  settled yet (each with its closure), the log of the batches sent, and the log of the
  notifications shown.
\<close>

record Sys =
  hook :: SyncState
  inflight :: "Closure list"
  sent :: "BatchItem list list"
  shown :: "notification list"

text \<open>
  The events of a session. A confirmed check enqueues a record, with the two clock
  readings it takes; the timer of the trigger loop fires \<open>processSyncQueue\<close>, with the
  value of \<open>navigator.onLine\<close> at that moment; the call in flight settles; the window
  reports \<open>online\<close>; the user asks for a manual sync, again with \<open>navigator.onLine\<close>.
  The timer is armed again after every render that changes the queue or the interval, so
  the callback that fires is the one of the last render and the queue and interval in
  its closure are the current ones. Handlers and continuations run to completion on the
  one thread of the event loop, so each event is one transition.
\<close>

datatype event =
    Enqueue PaperRoll nat nat
  | Trigger bool
  | Settle outcome
  | Online
  | ManualSync bool

fun handle :: "event \<Rightarrow> Sys \<Rightarrow> Sys" where
  "handle (Enqueue item nowId nowTs) s = s\<lparr>hook := addToQueue item nowId nowTs (hook s)\<rparr>"
| "handle (Trigger onLine) s =
     (case processSyncQueue_begin onLine (hook s) of
        None \<Rightarrow> s
      | Some (st, c) \<Rightarrow>
          s\<lparr>hook := st, inflight := inflight s @ [c], sent := sent s @ [batchItems (batch c)]\<rparr>)"
| "handle (Settle oc) s =
     (case inflight s of
        [] \<Rightarrow> s
      | c # cs \<Rightarrow>
          s\<lparr>hook := fst (processSyncQueue_settle oc c (hook s)),
             inflight := cs,
             shown := shown s @ snd (processSyncQueue_settle oc c (hook s))\<rparr>)"
| "handle Online s = s\<lparr>hook := handleOnline (hook s)\<rparr>"
| "handle (ManualSync onLine) s =
     s\<lparr>hook := fst (handleManualSync onLine (hook s)),
        shown := shown s @ snd (handleManualSync onLine (hook s))\<rparr>"

text \<open>
  An event is its handler followed by the effects of the render that it causes; the
  state before the event is the previous render.
\<close>

definition step :: "event \<Rightarrow> Sys \<Rightarrow> Sys" where
  "step e s = (handle e s)\<lparr>hook := effects (hook s) (hook (handle e s))\<rparr>"

definition run :: "event list \<Rightarrow> Sys \<Rightarrow> Sys" where
  "run es s = foldl (\<lambda>s e. step e s) s es"

text \<open>
  The state once the persisted queue \<open>q\<close> is loaded: \<open>setOfflineQueue(queue)\<close>, and
  \<open>setSessionTotal(queue.length)\<close> when it is not empty; every other cell at its
  \<open>useState\<close> default.
\<close>

definition initState :: "QueueItem list \<Rightarrow> SyncState" where
  "initState q =
     \<lparr>offlineQueue = q,
      sessionTotal = (if length q > 0 then length q else 0),
      isSyncing = False,
      syncIntervalMs = 10000,
      isSyncingRef = False\<rparr>"

definition initSys :: "QueueItem list \<Rightarrow> Sys" where
  "initSys q = \<lparr>hook = initState q, inflight = [], sent = [], shown = []\<rparr>"

section \<open>Scenarios over the transition system\<close>

text \<open>The completion of the call in flight, as opposed to every other event.\<close>

fun isSettle :: "event \<Rightarrow> bool" where
  "isSettle (Settle oc) = True"
| "isSettle e = False"

text \<open>The queue items that the \<open>Enqueue\<close> events of a trace create, in order.\<close>

fun enqueued :: "event list \<Rightarrow> QueueItem list" where
  "enqueued [] = []"
| "enqueued (Enqueue item nowId nowTs # es) = queueItem item nowId nowTs # enqueued es"
| "enqueued (e # es) = enqueued es"

text \<open>The clock readings that the \<open>Enqueue\<close> events of a trace take their ids from.\<close>

fun stamps :: "event list \<Rightarrow> nat list" where
  "stamps [] = []"
| "stamps (Enqueue item nowId nowTs # es) = nowId # stamps es"
| "stamps (e # es) = stamps es"

text \<open>\<open>n\<close> dispatches in a row, each one started while online and rejected.\<close>

primrec failStreak :: "nat \<Rightarrow> string \<Rightarrow> event list" where
  "failStreak 0 msg = []"
| "failStreak (Suc n) msg = failStreak n msg @ [Trigger True, Settle (Rejected msg)]"

text \<open>
  The trigger loop with every dispatch resolved: while the queue is not empty the timer
  fires \<open>processSyncQueue\<close>, and the success updates the queue, which arms the timer again.
\<close>

function drain :: "Sys \<Rightarrow> Sys" where
  "drain s =
     (if offlineQueue (hook s) = [] \<or> isSyncingRef (hook s) \<or> inflight s \<noteq> [] then s
      else drain (step (Settle Resolved) (step (Trigger True) s)))"
  by pat_completeness auto
termination
proof (relation "measure (\<lambda>s. length (offlineQueue (hook s)))")
  show "wf (measure (\<lambda>s. length (offlineQueue (hook s))))"
    by simp
next
  fix s :: Sys
  assume "\<not> (offlineQueue (hook s) = [] \<or> isSyncingRef (hook s) \<or> inflight s \<noteq> [])"
  then have idle: "offlineQueue (hook s) \<noteq> []" "\<not> isSyncingRef (hook s)" "inflight s = []"
    by simp_all
  have eff: "offlineQueue (effects prev st) = offlineQueue st" for prev st
    by (simp add: effects_def resetSessionEffect_def triggerLoopEffect_def)
  have "offlineQueue (hook (step (Settle Resolved) (step (Trigger True) s))) =
        drop (length (take BATCH_SIZE (offlineQueue (hook s)))) (offlineQueue (hook s))"
    using idle by (simp add: step_def eff processSyncQueue_begin_def processSyncQueue_resolved_def)
  with idle(1)
  show "(step (Settle Resolved) (step (Trigger True) s), s) \<in> measure (\<lambda>s. length (offlineQueue (hook s)))"
    by (simp add: BATCH_SIZE_def)
qed

declare drain.simps [simp del]

text \<open>A list cut into consecutive pieces of \<open>BATCH_SIZE\<close>, the last one possibly shorter.\<close>

function batches :: "'a list \<Rightarrow> 'a list list" where
  "batches [] = []"
| "batches (x # xs) = take BATCH_SIZE (x # xs) # batches (drop BATCH_SIZE (x # xs))"
  by pat_completeness auto
termination
  by (relation "measure length") (auto simp: BATCH_SIZE_def)

text \<open>A record with the given \<open>sku\<close> and \<open>packageId\<close> and every other field blank.\<close>

definition roll :: "string \<Rightarrow> string \<Rightarrow> PaperRoll" where
  "roll s p =
     \<lparr>sku = s, purpose = [], packageId = p, type = [], gsm = [], supplier = [],
      manufacturer = [], importDate = [], prodDate = [], lengthCm = [], widthCm = [],
      weight = [], quantity = [], customerOrder = [], materialCode = [], location = [],
      pendingOut = [], importer = [], updatedAt = []\<rparr>"

section \<open>The read cache\<close>

text \<open>
  \<open>String.prototype.toLowerCase\<close> and \<open>String.prototype.trim\<close> on ASCII strings: the
  letters \<open>A\<close> to \<open>Z\<close>, and the white space and line terminators tab, line feed,
  vertical tab, form feed, carriage return and space. Outside ASCII the functions of
  the source do more: they also map letters such as U+00C9 and strip U+00A0 and the
  other Unicode white space. The keys evaluated in this theory are ASCII.
\<close>

definition toLowerChar :: "char \<Rightarrow> char" where
  "toLowerChar c =
     (case map_of (zip ''ABCDEFGHIJKLMNOPQRSTUVWXYZ'' ''abcdefghijklmnopqrstuvwxyz'') c of
        None \<Rightarrow> c
      | Some l \<Rightarrow> l)"

definition toLowerCase :: "string \<Rightarrow> string" where
  "toLowerCase s = map toLowerChar s"

definition isWhiteSpace :: "char \<Rightarrow> bool" where
  "isWhiteSpace c = (c \<in> set [CHR 0x09, CHR 0x0A, CHR 0x0B, CHR 0x0C, CHR 0x0D, CHR '' ''])"

definition trim :: "string \<Rightarrow> string" where
  "trim s = rev (dropWhile isWhiteSpace (rev (dropWhile isWhiteSpace s)))"

text \<open>Truthiness of a JavaScript string: every string but the empty one.\<close>

definition truthy :: "string \<Rightarrow> bool" where
  "truthy s = (s \<noteq> [])"

type_synonym cache = "string \<rightharpoonup> PaperRoll"

definition updateCache :: "PaperRoll \<Rightarrow> cache \<Rightarrow> cache" where
  "updateCache item prev =
     (let newCache = prev;
          newCache = (if truthy (sku item) then newCache(toLowerCase (sku item) \<mapsto> item)
                      else newCache);
          newCache = (if truthy (packageId item) then newCache(toLowerCase (packageId item) \<mapsto> item)
                      else newCache)
      in newCache)"

text \<open>
  The cache branch of \<open>handleSearch\<close>: \<open>Some\<close> is the record handed to
  \<open>setFoundItem\<close>, \<open>None\<close> is falling through to the server call.
\<close>

definition handleSearch_cache :: "string \<Rightarrow> cache \<Rightarrow> PaperRoll option" where
  "handleSearch_cache code dataCache =
     (let normalizedCode = toLowerCase (trim code)
      in if normalizedCode \<in> dom dataCache then dataCache normalizedCode else None)"

section \<open>The server side: saveBatchToKiemKeSheet\<close>

text \<open>
  A sheet is its rows down to the last row with content, so that \<open>getLastRow\<close> is the
  length of the list; a row is its cells from column A on, and a cell beyond the end of
  the list is blank. A cell holds the string written to it. The labels of the header
  row are written without their diacritics.
\<close>

type_synonym row = "string list"

type_synonym sheet = "row list"

definition HEADER :: row where
  "HEADER =
     [''SKU'', ''Muc Dich'', ''Kien Giay'', ''Loai Giay'', ''Dinh Luong'',
      ''Nha CC'', ''Nha SX'', ''Ngay Nhap'', ''Ngay SX'', ''Dai (cm)'',
      ''Rong (cm)'', ''Trong Luong'', ''So Luong'', ''Don Hang'', ''Ma VT'',
      ''Vi Tri'', ''Cho Xuat'', ''Nguoi Kiem'', ''Thoi Gian'', ''Client ID'']"

definition cell :: "row \<Rightarrow> nat \<Rightarrow> string" where
  "cell r col = (if 1 \<le> col \<and> col \<le> length r then r ! (col - 1) else [])"

text \<open>
  \<open>existingIds\<close>: the non-blank cells of column 20 in the rows 2 to \<open>lastRow\<close>, read
  only when \<open>lastRow > 1\<close>.
\<close>

definition existingIds :: "sheet \<Rightarrow> string list" where
  "existingIds sh =
     (let lastRow = length sh
      in if lastRow > 1
         then filter truthy (map (\<lambda>r. cell r 20) (take (lastRow - 1) (drop 1 sh)))
         else [])"

definition sheetRow :: "string \<Rightarrow> BatchItem \<Rightarrow> row" where
  "sheetRow nowStr item =
     [sku (payload item), purpose (payload item), packageId (payload item),
      type (payload item), gsm (payload item), supplier (payload item),
      manufacturer (payload item), importDate (payload item), prodDate (payload item),
      lengthCm (payload item), widthCm (payload item), weight (payload item),
      quantity (payload item), customerOrder (payload item), materialCode (payload item),
      location (payload item), pendingOut (payload item), importer (payload item),
      CHR 0x27 # nowStr,
      clientQueueId item]"

text \<open>The \<open>for (const item of dataArray)\<close> loop that fills \<open>rowsToAdd\<close>.\<close>

fun rowsToAdd :: "string list \<Rightarrow> string \<Rightarrow> BatchItem list \<Rightarrow> row list" where
  "rowsToAdd ids nowStr [] = []"
| "rowsToAdd ids nowStr (item # rest) =
     (if truthy (clientQueueId item) \<and> clientQueueId item \<in> set ids
      then rowsToAdd ids nowStr rest
      else sheetRow nowStr item # rowsToAdd ids nowStr rest)"

text \<open>
  The call on the sheet \<open>KIEMKE\<close> of the target file: \<open>None\<close> when the file has no
  such sheet yet. \<open>lockOk\<close> says whether \<open>lock.waitLock\<close> got the lock; when it did not, the
  call throws and nothing is written. The result is the sheet afterwards and the
  \<open>added\<close> count.
\<close>

definition saveBatchToKiemKeSheet ::
    "BatchItem list \<Rightarrow> bool \<Rightarrow> string \<Rightarrow> sheet option \<Rightarrow> string + (sheet option \<times> nat)" where
  "saveBatchToKiemKeSheet dataArray lockOk nowStr store =
     (if length dataArray = 0 then Inr (store, 0)
      else if \<not> lockOk then Inl ''Lock timeout''
      else
        let sh = (case store of None \<Rightarrow> [HEADER] | Some sh \<Rightarrow> sh);
            lastRow = length sh;
            rows = rowsToAdd (existingIds sh) nowStr dataArray
        in Inr (Some (if length rows > 0 then take lastRow sh @ rows else sh), length rows))"

section \<open>Fixtures and auxiliary predicates\<close>

text \<open>
  The mutual exclusion invariant: the in-flight flag is set exactly while a call is in
  flight, at most one call is, and the spinner flag is set only while the in-flight
  flag is.
\<close>

definition guarded :: "Sys \<Rightarrow> bool" where
  "guarded s =
     ((isSyncingRef (hook s) = (inflight s \<noteq> [])) \<and> length (inflight s) \<le> 1 \<and>
      (isSyncing (hook s) = False \<or> isSyncingRef (hook s)))"

text \<open>
  Twelve confirmed checks, at twelve consecutive clock readings.
\<close>

definition twelveEnqueues :: "event list" where
  "twelveEnqueues =
     [Enqueue (roll ''S01'' ''P01'') 1001 1001, Enqueue (roll ''S02'' ''P02'') 1002 1002,
      Enqueue (roll ''S03'' ''P03'') 1003 1003, Enqueue (roll ''S04'' ''P04'') 1004 1004,
      Enqueue (roll ''S05'' ''P05'') 1005 1005, Enqueue (roll ''S06'' ''P06'') 1006 1006,
      Enqueue (roll ''S07'' ''P07'') 1007 1007, Enqueue (roll ''S08'' ''P08'') 1008 1008,
      Enqueue (roll ''S09'' ''P09'') 1009 1009, Enqueue (roll ''S10'' ''P10'') 1010 1010,
      Enqueue (roll ''S11'' ''P11'') 1011 1011, Enqueue (roll ''S12'' ''P12'') 1012 1012]"


text \<open>
  The state after one confirmed check on a fresh session with nothing persisted.
\<close>

definition oneQueued :: Sys where
  "oneQueued = run [Enqueue (roll ''S01'' ''P01'') 1001 1001] (initSys [])"


text \<open>
  A batch item that carries no idempotency token, and a batch of two items that do.
\<close>

definition tokenless :: BatchItem where
  "tokenless = \<lparr>payload = roll ''S01'' ''P01'', clientQueueId = []\<rparr>"

definition twoItems :: "BatchItem list" where
  "twoItems =
     [\<lparr>payload = roll ''S01'' ''P01'', clientQueueId = ''q-1001''\<rparr>,
      \<lparr>payload = roll ''S02'' ''P02'', clientQueueId = ''q-1002''\<rparr>]"

text \<open>A confirmed check, as opposed to every other event.\<close>

fun isEnqueue :: "event \<Rightarrow> bool" where
  "isEnqueue (Enqueue item nowId nowTs) = True"
| "isEnqueue e = False"

section \<open>Supporting lemmas\<close>

lemmas handler_defs =
  processSyncQueue_begin_def processSyncQueue_resolved_def processSyncQueue_rejected_def
  addToQueue_def handleOnline_def handleManualSync_def

lemmas effect_defs = effects_def resetSessionEffect_def triggerLoopEffect_def

lemma isSyncingRef_effects [simp]: "isSyncingRef (effects prev st) = isSyncingRef st"
  by (simp add: effect_defs)

lemma offlineQueue_effects [simp]: "offlineQueue (effects prev st) = offlineQueue st"
  by (simp add: effect_defs)

lemma effects_nonempty [simp]: "offlineQueue st \<noteq> [] \<Longrightarrow> effects prev st = st"
  by (simp add: effect_defs)

lemma hook_step: "hook (step e s) = effects (hook s) (hook (handle e s))"
  by (simp add: step_def)

lemma run_Nil [simp]: "run [] s = s"
  by (simp add: run_def)

lemma run_Cons [simp]: "run (e # es) s = run es (step e s)"
  by (simp add: run_def)

lemma run_append [simp]: "run (es @ fs) s = run fs (run es s)"
  by (simp add: run_def)

lemma step_Trigger_noop:
  "offlineQueue (hook s) = [] \<or> isSyncingRef (hook s) \<or> \<not> onLine \<Longrightarrow> step (Trigger onLine) s = s"
  by (auto simp: step_def processSyncQueue_begin_def effect_defs)

lemma step_Trigger_idle:
  assumes "offlineQueue (hook s) \<noteq> []" "\<not> isSyncingRef (hook s)"
  shows "step (Trigger True) s =
    s\<lparr>hook := (hook s)\<lparr>isSyncingRef := True, isSyncing := True\<rparr>,
      inflight := inflight s @ [\<lparr>batch = take BATCH_SIZE (offlineQueue (hook s)),
                                closureIntervalMs = syncIntervalMs (hook s)\<rparr>],
      sent := sent s @ [batchItems (take BATCH_SIZE (offlineQueue (hook s)))]\<rparr>"
  using assms by (simp add: step_def processSyncQueue_begin_def)

lemma queue_step_Rejected:
  "offlineQueue (hook (step (Settle (Rejected msg)) s)) = offlineQueue (hook s)"
  by (cases "inflight s") (simp_all add: hook_step processSyncQueue_rejected_def)

lemma total_step_Rejected:
  "sessionTotal (hook (step (Settle (Rejected msg)) s)) = sessionTotal (hook s)"
  by (cases "inflight s") (simp_all add: hook_step processSyncQueue_rejected_def effect_defs)

lemma queue_step_Resolved:
  "inflight s = c # cs \<Longrightarrow>
   offlineQueue (hook (step (Settle Resolved) s)) = drop (length (batch c)) (offlineQueue (hook s))"
  by (simp add: hook_step processSyncQueue_resolved_def)

lemma drop_take_batch: "drop (min (length q) BATCH_SIZE) q = drop BATCH_SIZE q"
  by (cases "length q \<le> BATCH_SIZE") (simp_all add: min_def)

lemma drop_min_batch: "drop (min (length q) 5) q = drop BATCH_SIZE q"
  by (cases "length q \<le> 5") (simp_all add: BATCH_SIZE_def min_def)

lemma take_min_batch: "take (min (length q) 5) q = take BATCH_SIZE q"
  by (cases "length q \<le> 5") (simp_all add: BATCH_SIZE_def min_def)

lemma cycle_Resolved:
  assumes "offlineQueue (hook s) \<noteq> []" "\<not> isSyncingRef (hook s)" "inflight s = []"
  shows "offlineQueue (hook (step (Settle Resolved) (step (Trigger True) s))) =
           drop BATCH_SIZE (offlineQueue (hook s))"
    and "\<not> isSyncingRef (hook (step (Settle Resolved) (step (Trigger True) s)))"
    and "inflight (step (Settle Resolved) (step (Trigger True) s)) = []"
    and "sent (step (Settle Resolved) (step (Trigger True) s)) =
           sent s @ [batchItems (take BATCH_SIZE (offlineQueue (hook s)))]"
proof -
  note t = step_Trigger_idle[OF assms(1,2)]
  show "offlineQueue (hook (step (Settle Resolved) (step (Trigger True) s))) =
           drop BATCH_SIZE (offlineQueue (hook s))"
    unfolding t using assms(3)
    by (simp add: queue_step_Resolved drop_take_batch)
  show "\<not> isSyncingRef (hook (step (Settle Resolved) (step (Trigger True) s)))"
    unfolding t using assms(3) by (simp add: hook_step processSyncQueue_resolved_def)
  show "inflight (step (Settle Resolved) (step (Trigger True) s)) = []"
    unfolding t using assms(3) by (simp add: step_def)
  show "sent (step (Settle Resolved) (step (Trigger True) s)) =
           sent s @ [batchItems (take BATCH_SIZE (offlineQueue (hook s)))]"
    unfolding t using assms(3) by (simp add: step_def)
qed

lemma drain_sent:
  "\<not> isSyncingRef (hook s) \<Longrightarrow> inflight s = [] \<Longrightarrow>
   sent (drain s) = sent s @ map batchItems (batches (offlineQueue (hook s))) \<and>
   offlineQueue (hook (drain s)) = []"
proof (induction s rule: drain.induct)
  case (1 s)
  show ?case
  proof (cases "offlineQueue (hook s) = []")
    case True
    then show ?thesis by (simp add: drain.simps[of s])
  next
    case False
    let ?s' = "step (Settle Resolved) (step (Trigger True) s)"
    note c = cycle_Resolved[OF False "1.prems"]
    have IH: "sent (drain ?s') = sent ?s' @ map batchItems (batches (offlineQueue (hook ?s'))) \<and>
          offlineQueue (hook (drain ?s')) = []"
      using "1.IH" False "1.prems" c(2,3) by simp
    from False obtain x xs where xs: "offlineQueue (hook s) = x # xs"
      by (cases "offlineQueue (hook s)") auto
    have "drain s = drain ?s'"
      using False "1.prems" by (simp add: drain.simps[of s])
    then show ?thesis using IH c(1,4) xs by simp
  qed
qed

text \<open>The lengths of the pieces depend on the length of the list alone.\<close>

lemma length_batches_12:
  assumes "length xs = 12"
  shows "map length (batches xs) = [5, 5, 2]"
proof -
  from assms obtain a b c d e f g h i j k l where "xs = [a, b, c, d, e, f, g, h, i, j, k, l]"
    by (auto simp: numeral_eq_Suc length_Suc_conv)
  then show ?thesis by (simp add: BATCH_SIZE_def)
qed

lemma batches_12:
  assumes "length xs = 12"
  shows "batches xs = [take 5 xs, take 5 (drop 5 xs), drop 10 xs]"
proof -
  from assms obtain a b c d e f g h i j k l where "xs = [a, b, c, d, e, f, g, h, i, j, k, l]"
    by (auto simp: numeral_eq_Suc length_Suc_conv)
  then show ?thesis by (simp add: BATCH_SIZE_def)
qed

lemma guarded_step: "guarded s \<Longrightarrow> guarded (step e s)"
proof (cases e)
  case (Trigger onLine)
  then show "guarded s \<Longrightarrow> guarded (step e s)"
    by (auto simp: guarded_def step_def processSyncQueue_begin_def effect_defs
        split: option.splits if_splits)
next
  case (Settle oc)
  then show "guarded s \<Longrightarrow> guarded (step e s)"
    by (cases oc; cases "inflight s")
       (auto simp: guarded_def step_def effect_defs processSyncQueue_resolved_def
          processSyncQueue_rejected_def)
qed (auto simp: guarded_def step_def handler_defs effect_defs)

lemma guarded_run: "guarded s \<Longrightarrow> guarded (run es s)"
  by (induction es arbitrary: s) (auto intro: guarded_step)

lemma guarded_init: "guarded (initSys q)"
  by (simp add: guarded_def initSys_def initState_def)

lemma guarded_reachable: "guarded (run es (initSys q))"
  by (rule guarded_run[OF guarded_init])

lemma enqueue_only_run:
  "list_all (\<lambda>e. \<not> isSettle e \<and> e \<noteq> Trigger True) es \<Longrightarrow>
   offlineQueue (hook (run es s)) = offlineQueue (hook s) @ enqueued es \<and>
   isSyncingRef (hook (run es s)) = isSyncingRef (hook s) \<and>
   inflight (run es s) = inflight s \<and> sent (run es s) = sent s"
proof (induction es arbitrary: s)
  case Nil
  then show ?case by simp
next
  case (Cons e es)
  from Cons.prems have "\<not> isSettle e" "e \<noteq> Trigger True" by simp_all
  then have st: "offlineQueue (hook (step e s)) = offlineQueue (hook s) @ enqueued [e] \<and>
   isSyncingRef (hook (step e s)) = isSyncingRef (hook s) \<and>
   inflight (step e s) = inflight s \<and> sent (step e s) = sent s"
    by (cases e) (auto simp: step_def handler_defs split: if_splits)
  have en: "enqueued (e # es) = enqueued [e] @ enqueued es" by (cases e) simp_all
  from Cons.IH[of "step e s"] Cons.prems st en show ?case by simp
qed

lemma twelve_state:
  "offlineQueue (hook (run twelveEnqueues (initSys []))) = enqueued twelveEnqueues"
  "\<not> isSyncingRef (hook (run twelveEnqueues (initSys [])))"
  "inflight (run twelveEnqueues (initSys [])) = []"
  "sent (run twelveEnqueues (initSys [])) = []"
proof -
  have "list_all (\<lambda>e. \<not> isSettle e \<and> e \<noteq> Trigger True) twelveEnqueues"
    by (simp add: twelveEnqueues_def)
  from enqueue_only_run[OF this, of "initSys []"]
  show "offlineQueue (hook (run twelveEnqueues (initSys []))) = enqueued twelveEnqueues"
  "\<not> isSyncingRef (hook (run twelveEnqueues (initSys [])))"
  "inflight (run twelveEnqueues (initSys [])) = []"
  "sent (run twelveEnqueues (initSys [])) = []"
    by (simp_all add: initSys_def initState_def)
qed





lemma step_inflight:
  assumes "isSyncingRef (hook s)" "offlineQueue (hook s) \<noteq> []" "\<not> isSettle e"
  shows "offlineQueue (hook (step e s)) = offlineQueue (hook s) @ enqueued [e] \<and>
         inflight (step e s) = inflight s \<and> sent (step e s) = sent s \<and>
         isSyncingRef (hook (step e s))"
  using assms
  by (cases e) (auto simp: step_def handler_defs split: if_splits)

lemma run_inflight:
  assumes "isSyncingRef (hook s)" "offlineQueue (hook s) \<noteq> []" "list_all (\<lambda>e. \<not> isSettle e) es"
  shows "offlineQueue (hook (run es s)) = offlineQueue (hook s) @ enqueued es \<and>
         inflight (run es s) = inflight s \<and> sent (run es s) = sent s \<and>
         isSyncingRef (hook (run es s))"
  using assms
proof (induction es arbitrary: s)
  case Nil
  then show ?case by simp
next
  case (Cons e es)
  from Cons.prems have e: "\<not> isSettle e" and es: "list_all (\<lambda>e. \<not> isSettle e) es"
    by simp_all
  note st = step_inflight[OF Cons.prems(1,2) e]
  from st Cons.prems(2) have ne: "offlineQueue (hook (step e s)) \<noteq> []" by simp
  from st have ref: "isSyncingRef (hook (step e s))" by simp
  have en: "enqueued (e # es) = enqueued [e] @ enqueued es" by (cases e) simp_all
  from Cons.IH[OF ref ne es] st en show ?case by simp
qed

lemma fail_cycle:
  assumes "offlineQueue (hook s) \<noteq> []" "\<not> isSyncingRef (hook s)" "inflight s = []"
  shows "run [Trigger True, Settle (Rejected msg)] s =
    s\<lparr>hook := (hook s)\<lparr>isSyncingRef := False, isSyncing := False,
                        syncIntervalMs := min (syncIntervalMs (hook s) * 2) 300000\<rparr>,
      sent := sent s @ [batchItems (take BATCH_SIZE (offlineQueue (hook s)))],
      shown := shown s @ (if syncIntervalMs (hook s) > 60000 then [(SyncFailed msg, error)] else [])\<rparr>"
  using assms by (simp add: step_Trigger_idle) (simp add: step_def processSyncQueue_rejected_def)

lemma min_double:
  "min (min (i * 2 ^ n) 300000 * 2) (300000::int) = min (i * 2 ^ Suc n) 300000"
  by (simp add: min_def)

lemma failStreak_state:
  assumes "offlineQueue (hook s) \<noteq> []" "\<not> isSyncingRef (hook s)" "inflight s = []"
  shows "offlineQueue (hook (run (failStreak (Suc n) msg) s)) = offlineQueue (hook s) \<and>
         \<not> isSyncingRef (hook (run (failStreak (Suc n) msg) s)) \<and>
         inflight (run (failStreak (Suc n) msg) s) = [] \<and>
         syncIntervalMs (hook (run (failStreak (Suc n) msg) s)) =
           min (syncIntervalMs (hook s) * 2 ^ Suc n) 300000"
proof (induction n)
  case 0
  show ?case using assms by (simp add: fail_cycle del: run_Cons)
next
  case (Suc n)
  let ?t = "run (failStreak (Suc n) msg) s"
  from Suc assms(1) have idle: "offlineQueue (hook ?t) \<noteq> []" "\<not> isSyncingRef (hook ?t)" "inflight ?t = []"
    by simp_all
  have "run (failStreak (Suc (Suc n)) msg) s = run [Trigger True, Settle (Rejected msg)] ?t"
    by (simp del: run_Cons failStreak.simps(2) add: failStreak.simps(2)[of "Suc n"])
  then show ?case
    using Suc by (simp only: fail_cycle[OF idle]) (simp add: min_double)
qed

lemma failStreak_idle:
  assumes "offlineQueue (hook s) \<noteq> []" "\<not> isSyncingRef (hook s)" "inflight s = []"
  shows "offlineQueue (hook (run (failStreak n msg) s)) = offlineQueue (hook s) \<and>
         \<not> isSyncingRef (hook (run (failStreak n msg) s)) \<and>
         inflight (run (failStreak n msg) s) = []"
  using assms failStreak_state[OF assms] by (cases n) simp_all

lemma failStreak_interval:
  assumes "offlineQueue (hook s) \<noteq> []" "\<not> isSyncingRef (hook s)" "inflight s = []"
    and "syncIntervalMs (hook s) \<le> 300000"
  shows "syncIntervalMs (hook (run (failStreak n msg) s)) = min (syncIntervalMs (hook s) * 2 ^ n) 300000"
  using assms(4) failStreak_state[OF assms(1-3)] by (cases n) simp_all

lemmas eval_defs =
  step_def run_def initSys_def initState_def handler_defs effect_defs BATCH_SIZE_def batchItems_def

lemma oneQueued_eval:
  "oneQueued =
     \<lparr>hook = \<lparr>offlineQueue = [queueItem (roll ''S01'' ''P01'') 1001 1001], sessionTotal = 1,
               isSyncing = False, syncIntervalMs = 10000, isSyncingRef = False\<rparr>,
      inflight = [], sent = [], shown = []\<rparr>"
  by (simp add: oneQueued_def eval_defs)

lemma power2_ge_512: "9 \<le> n \<Longrightarrow> (512::int) \<le> 2 ^ n"
proof -
  assume "9 \<le> n"
  then have "(2::int) ^ 9 \<le> 2 ^ n" by (intro power_increasing) simp_all
  then show ?thesis by simp
qed

lemma failStreak_shown:
  assumes "offlineQueue (hook s) \<noteq> []" "\<not> isSyncingRef (hook s)" "inflight s = []"
  shows "shown (run (failStreak (Suc n) msg) s) =
           shown (run (failStreak n msg) s) @
             (if syncIntervalMs (hook (run (failStreak n msg) s)) > 60000
              then [(SyncFailed msg, error)] else [])"
proof -
  let ?t = "run (failStreak n msg) s"
  from failStreak_idle[OF assms, of n msg] assms(1)
  have t: "offlineQueue (hook ?t) \<noteq> []" "\<not> isSyncingRef (hook ?t)" "inflight ?t = []"
    by simp_all
  have "run (failStreak (Suc n) msg) s = run [Trigger True, Settle (Rejected msg)] ?t"
    by (simp del: run_Cons)
  then show ?thesis
    by (simp only: fail_cycle[OF t]) simp
qed

lemma oneQueued_idle:
  "offlineQueue (hook oneQueued) \<noteq> []" "\<not> isSyncingRef (hook oneQueued)" "inflight oneQueued = []"
  by (simp_all add: oneQueued_eval)

lemma oneQueued_streak3:
  "syncIntervalMs (hook (run (failStreak 3 msg) oneQueued)) = 80000"
  "shown (run (failStreak 3 msg) oneQueued) = []"
  "offlineQueue (hook (run (failStreak 3 msg) oneQueued)) \<noteq> []"
  "\<not> isSyncingRef (hook (run (failStreak 3 msg) oneQueued))"
  "inflight (run (failStreak 3 msg) oneQueued) = []"
proof -
  have i: "syncIntervalMs (hook oneQueued) \<le> 300000" "syncIntervalMs (hook oneQueued) = 10000"
    by (simp_all add: oneQueued_eval)
  note iv = failStreak_interval[OF oneQueued_idle i(1), of _ msg]
  show "syncIntervalMs (hook (run (failStreak 3 msg) oneQueued)) = 80000"
    by (simp add: iv i(2))
  have s0: "shown (run (failStreak 0 msg) oneQueued) = []"
    by (simp add: oneQueued_eval)
  have s1: "shown (run (failStreak (Suc 0) msg) oneQueued) = []"
    unfolding failStreak_shown[OF oneQueued_idle] s0 iv i(2) by simp
  have s2: "shown (run (failStreak (Suc (Suc 0)) msg) oneQueued) = []"
    unfolding failStreak_shown[OF oneQueued_idle, of "Suc 0"] s1 iv i(2) by simp
  have s3: "shown (run (failStreak (Suc (Suc (Suc 0))) msg) oneQueued) = []"
    unfolding failStreak_shown[OF oneQueued_idle, of "Suc (Suc 0)"] s2 iv i(2) by simp
  then show "shown (run (failStreak 3 msg) oneQueued) = []"
    by (simp only: numeral_3_eq_3)
  from failStreak_idle[OF oneQueued_idle, of 3 msg] oneQueued_idle(1)
  show "offlineQueue (hook (run (failStreak 3 msg) oneQueued)) \<noteq> []"
    "\<not> isSyncingRef (hook (run (failStreak 3 msg) oneQueued))"
    "inflight (run (failStreak 3 msg) oneQueued) = []"
    by simp_all
qed

lemma interval_step_Rejected:
  "inflight s = c # cs \<Longrightarrow> offlineQueue (hook s) \<noteq> [] \<Longrightarrow>
   syncIntervalMs (hook (step (Settle (Rejected msg)) s)) = min (syncIntervalMs (hook s) * 2) 300000"
  by (simp add: step_def processSyncQueue_rejected_def)

lemma shown_step_Rejected:
  "inflight s = c # cs \<Longrightarrow>
   shown (step (Settle (Rejected msg)) s) =
     shown s @ (if closureIntervalMs c > 60000 then [(SyncFailed msg, error)] else [])"
  by (simp add: step_def processSyncQueue_rejected_def)

lemma failStreak_state_pos:
  assumes "offlineQueue (hook s) \<noteq> []" "\<not> isSyncingRef (hook s)" "inflight s = []" "0 < n"
  shows "offlineQueue (hook (run (failStreak n msg) s)) = offlineQueue (hook s) \<and>
         \<not> isSyncingRef (hook (run (failStreak n msg) s)) \<and>
         inflight (run (failStreak n msg) s) = [] \<and>
         syncIntervalMs (hook (run (failStreak n msg) s)) =
           min (syncIntervalMs (hook s) * 2 ^ n) 300000"
proof -
  from assms(4) obtain m where "n = Suc m" by (cases n) auto
  then show ?thesis using failStreak_state[OF assms(1-3), of m msg] by blast
qed

lemma dec_nonempty: "dec n \<noteq> []"
  by (subst dec.simps) simp

lemma digit_inj: "a < 10 \<Longrightarrow> b < 10 \<Longrightarrow> digit a = digit b \<Longrightarrow> a = b"
proof -
  assume a: "a < 10" and b: "b < 10" and e: "digit a = digit b"
  have d: "distinct ''0123456789''" by simp
  have l: "length ''0123456789'' = 10" by simp
  from e have "''0123456789'' ! a = ''0123456789'' ! b" by (simp add: digit_def)
  with d a b l show "a = b" by (metis nth_eq_iff_index_eq)
qed

lemma dec_inj: "dec a = dec b \<Longrightarrow> a = b"
proof (induction a arbitrary: b rule: dec.induct)
  case (1 n)
  show ?case
  proof (cases "n < 10")
    case True
    with "1.prems" have eq: "dec b = [digit n]" by (simp add: dec.simps[of n])
    have "b < 10"
    proof (rule ccontr)
      assume "\<not> b < 10"
      then have "dec b = dec (b div 10) @ [digit (b mod 10)]" by (simp add: dec.simps[of b])
      with eq have "dec (b div 10) = []" by simp
      then show False by (simp add: dec_nonempty)
    qed
    with eq have "digit b = digit n" by (simp add: dec.simps[of b])
    then have "digit n = digit b" by simp
    from digit_inj[OF True \<open>b < 10\<close> this] show ?thesis .
  next
    case False
    then have n: "dec n = dec (n div 10) @ [digit (n mod 10)]" by (simp add: dec.simps[of n])
    have "\<not> b < 10"
    proof
      assume "b < 10"
      then have "dec b = [digit b]" by (simp add: dec.simps[of b])
      with n "1.prems" have "dec (n div 10) = []" by simp
      then show False by (simp add: dec_nonempty)
    qed
    then have b: "dec b = dec (b div 10) @ [digit (b mod 10)]" by (simp add: dec.simps[of b])
    from n b "1.prems" have h: "dec (n div 10) = dec (b div 10)" and d: "digit (n mod 10) = digit (b mod 10)"
      by simp_all
    from "1.IH"[OF False h] have "n div 10 = b div 10" .
    moreover have "n mod 10 = b mod 10" by (rule digit_inj[OF _ _ d]) simp_all
    ultimately show ?thesis by (metis div_mult_mod_eq)
  qed
qed

lemma id_q_queueItem: "id_q (queueItem item nowId nowTs) = ''q-'' @ dec nowId"
  by (simp add: queueItem_def)

lemma ids_enqueued: "map id_q (enqueued es) = map (\<lambda>t. ''q-'' @ dec t) (stamps es)"
  by (induction es rule: enqueued.induct) (simp_all add: id_q_queueItem)

lemma stamps_single: "stamps (e # es) = stamps [e] @ stamps es"
  by (cases e) simp_all

text \<open>Every step keeps a suffix of the queue and appends what it enqueues.\<close>

lemma step_queue_shape:
  "\<exists>k. offlineQueue (hook (step e s)) = drop k (offlineQueue (hook s)) @ enqueued [e]"
proof (cases e)
  case (Enqueue item nowId nowTs)
  then have "offlineQueue (hook (step e s)) = drop 0 (offlineQueue (hook s)) @ enqueued [e]"
    by (simp add: hook_step addToQueue_def)
  then show ?thesis by blast
next
  case (Trigger onLine)
  then have "offlineQueue (hook (step e s)) = drop 0 (offlineQueue (hook s)) @ enqueued [e]"
    by (simp add: hook_step processSyncQueue_begin_def)
  then show ?thesis by blast
next
  case (Settle oc)
  show ?thesis
  proof (cases "inflight s")
    case Nil
    with Settle have "offlineQueue (hook (step e s)) = drop 0 (offlineQueue (hook s)) @ enqueued [e]"
      by (simp add: hook_step)
    then show ?thesis by blast
  next
    case (Cons c cs)
    show ?thesis
    proof (cases oc)
      case Resolved
      with Settle Cons have "offlineQueue (hook (step e s)) =
          drop (length (batch c)) (offlineQueue (hook s)) @ enqueued [e]"
        by (simp add: hook_step processSyncQueue_resolved_def)
      then show ?thesis by blast
    next
      case (Rejected msg)
      with Settle Cons have "offlineQueue (hook (step e s)) = drop 0 (offlineQueue (hook s)) @ enqueued [e]"
        by (simp add: hook_step processSyncQueue_rejected_def)
      then show ?thesis by blast
    qed
  qed
next
  case Online
  then have "offlineQueue (hook (step e s)) = drop 0 (offlineQueue (hook s)) @ enqueued [e]"
    by (simp add: hook_step handleOnline_def)
  then show ?thesis by blast
next
  case (ManualSync onLine)
  then have "offlineQueue (hook (step e s)) = drop 0 (offlineQueue (hook s)) @ enqueued [e]"
    by (simp add: hook_step handleManualSync_def)
  then show ?thesis by blast
qed

lemma run_ids_distinct:
  assumes "distinct (map id_q (offlineQueue (hook s)))"
    and "distinct (stamps es)"
    and "list_all (\<lambda>t. ''q-'' @ dec t \<notin> set (map id_q (offlineQueue (hook s)))) (stamps es)"
  shows "distinct (map id_q (offlineQueue (hook (run es s))))"
  using assms
proof (induction es arbitrary: s)
  case Nil
  then show ?case by simp
next
  case (Cons e es)
  let ?q = "offlineQueue (hook s)"
  from step_queue_shape[of e s] obtain k where
    k: "offlineQueue (hook (step e s)) = drop k ?q @ enqueued [e]" by blast
  have sub: "set (map id_q (drop k ?q)) \<subseteq> set (map id_q ?q)"
    by (metis drop_map set_drop_subset)
  have dk: "distinct (map id_q (drop k ?q))"
    using Cons.prems(1) by (metis distinct_drop drop_map)
  have st: "stamps (e # es) = stamps [e] @ stamps es" by (rule stamps_single)
  from Cons.prems(2) st have d1: "distinct (stamps [e])" and d2: "distinct (stamps es)"
    and dj: "set (stamps [e]) \<inter> set (stamps es) = {}"
    by simp_all
  from Cons.prems(3) st have f1: "\<forall>t\<in>set (stamps [e]). ''q-'' @ dec t \<notin> set (map id_q ?q)"
    and f2: "\<forall>t\<in>set (stamps es). ''q-'' @ dec t \<notin> set (map id_q ?q)"
    by (simp_all add: list_all_iff)
  have new: "map id_q (enqueued [e]) = map (\<lambda>t. ''q-'' @ dec t) (stamps [e])"
    by (rule ids_enqueued)
  have inj: "inj_on (\<lambda>t. ''q-'' @ dec t) A" for A
    by (auto simp: inj_on_def dest: dec_inj)
  have dn: "distinct (map id_q (enqueued [e]))"
    unfolding new using d1 inj[of "set (stamps [e])"] by (simp add: distinct_map)
  have disj: "set (map id_q (drop k ?q)) \<inter> set (map id_q (enqueued [e])) = {}"
  proof -
    have "x \<notin> set (map id_q (drop k ?q))" if "x \<in> set (map id_q (enqueued [e]))" for x
    proof -
      from that obtain t where "t \<in> set (stamps [e])" and "x = ''q-'' @ dec t"
        unfolding new by auto
      with f1 have "x \<notin> set (map id_q ?q)" by blast
      with sub show ?thesis by blast
    qed
    then show ?thesis by blast
  qed
  have a: "distinct (map id_q (offlineQueue (hook (step e s))))"
    unfolding k using dk dn disj by simp
  have b: "list_all (\<lambda>t. ''q-'' @ dec t \<notin> set (map id_q (offlineQueue (hook (step e s))))) (stamps es)"
  proof -
    have "''q-'' @ dec t \<notin> set (map id_q (offlineQueue (hook (step e s))))" if t: "t \<in> set (stamps es)" for t
    proof -
      from f2 t have "''q-'' @ dec t \<notin> set (map id_q ?q)" by blast
      with sub have "''q-'' @ dec t \<notin> set (map id_q (drop k ?q))" by blast
      moreover have "''q-'' @ dec t \<notin> set (map id_q (enqueued [e]))"
      proof
        assume "''q-'' @ dec t \<in> set (map id_q (enqueued [e]))"
        then obtain u where u: "u \<in> set (stamps [e])" and "''q-'' @ dec t = ''q-'' @ dec u"
          unfolding new by auto
        then have "t = u" by (auto dest: dec_inj)
        with u t dj show False by auto
      qed
      ultimately show ?thesis unfolding k by simp
    qed
    then show ?thesis by (simp add: list_all_iff)
  qed
  from Cons.IH[OF a d2 b] show ?case by simp
qed

lemma rowsToAdd_filter:
  "rowsToAdd ids nowStr xs =
     map (sheetRow nowStr) (filter (\<lambda>i. \<not> (truthy (clientQueueId i) \<and> clientQueueId i \<in> set ids)) xs)"
  by (induction xs) simp_all

lemma cell_sheetRow: "cell (sheetRow nowStr item) 20 = clientQueueId item"
  by (simp add: cell_def sheetRow_def)

lemma existingIds_eq: "existingIds sh = filter truthy (map (\<lambda>r. cell r 20) (drop 1 sh))"
  by (cases sh) (simp_all add: existingIds_def Let_def)

lemma existingIds_append:
  "sh \<noteq> [] \<Longrightarrow>
   existingIds (sh @ map (sheetRow nowStr) xs) =
     existingIds sh @ filter truthy (map clientQueueId xs)"
  by (cases sh) (simp_all add: existingIds_eq cell_sheetRow comp_def)

lemma saveBatch_result:
  assumes "dataArray \<noteq> []"
  shows "saveBatchToKiemKeSheet dataArray True nowStr store =
     Inr (Some ((case store of None \<Rightarrow> [HEADER] | Some x \<Rightarrow> x) @
                rowsToAdd (existingIds (case store of None \<Rightarrow> [HEADER] | Some x \<Rightarrow> x)) nowStr dataArray),
          length (rowsToAdd (existingIds (case store of None \<Rightarrow> [HEADER] | Some x \<Rightarrow> x)) nowStr dataArray))"
  using assms by (simp add: saveBatchToKiemKeSheet_def Let_def)

text \<open>
  The guard \<open>item._clientQueueId && ...\<close> looks an item up only when it carries an id:
  an item with an empty \<open>_clientQueueId\<close> is written on every submission.
\<close>

lemma tokenless_item_is_appended_again:
  "saveBatchToKiemKeSheet [tokenless] True ''03/11/2026 10:00:00'' (Some [HEADER]) =
     Inr (Some [HEADER, sheetRow ''03/11/2026 10:00:00'' tokenless], 1) \<and>
   cell (sheetRow ''03/11/2026 10:00:00'' tokenless) 20 = clientQueueId tokenless \<and>
   saveBatchToKiemKeSheet [tokenless] True ''03/11/2026 10:00:05''
       (Some [HEADER, sheetRow ''03/11/2026 10:00:00'' tokenless]) =
     Inr (Some [HEADER, sheetRow ''03/11/2026 10:00:00'' tokenless,
                sheetRow ''03/11/2026 10:00:05'' tokenless], 1)"
  by (simp add: saveBatch_result cell_sheetRow existingIds_eq truthy_def tokenless_def)

text \<open>
  The call on a batch that is not empty, with the lock obtained. Let \<open>sh\<close> be the sheet
  the call works on (the existing one, or a new one holding the header row). An item
  is skipped exactly when its \<open>_clientQueueId\<close> is a non-empty string that occurs among
  the non-blank cells of column 20 in the rows 2 to \<open>lastRow\<close>; every other item is
  appended below the last row, in batch order, and \<open>added\<close> is the number of those.
  When every item has a non-empty \<open>_clientQueueId\<close> and the sheet has at least one row,
  its header, submitting the same batch again appends nothing and returns \<open>added = 0\<close>.
\<close>

lemma saveBatch_skips_known_ids:
  assumes "dataArray \<noteq> []"
    and "sh = (case store of None \<Rightarrow> [HEADER] | Some x \<Rightarrow> x)"
    and "fresh = filter (\<lambda>i. \<not> (clientQueueId i \<noteq> [] \<and> clientQueueId i \<in> set (existingIds sh))) dataArray"
  shows "saveBatchToKiemKeSheet dataArray True nowStr store =
           Inr (Some (sh @ map (sheetRow nowStr) fresh), length fresh) \<and>
         (list_all (\<lambda>i. clientQueueId i \<noteq> []) dataArray \<and> sh \<noteq> [] \<longrightarrow>
            saveBatchToKiemKeSheet dataArray True nowStr' (Some (sh @ map (sheetRow nowStr) fresh)) =
              Inr (Some (sh @ map (sheetRow nowStr) fresh), 0))"
proof (intro conjI impI)
  have rows: "rowsToAdd (existingIds sh) nowStr dataArray = map (sheetRow nowStr) fresh"
    by (simp add: rowsToAdd_filter assms(3) truthy_def)
  show first: "saveBatchToKiemKeSheet dataArray True nowStr store =
           Inr (Some (sh @ map (sheetRow nowStr) fresh), length fresh)"
    using saveBatch_result[OF assms(1), of nowStr store] rows by (simp add: assms(2)[symmetric])
  assume a: "list_all (\<lambda>i. clientQueueId i \<noteq> []) dataArray \<and> sh \<noteq> []"
  then have ne: "sh \<noteq> []" and tr: "\<forall>i\<in>set dataArray. clientQueueId i \<noteq> []"
    by (simp_all add: list_all_iff)
  let ?sh' = "sh @ map (sheetRow nowStr) fresh"
  have "filter truthy (map clientQueueId fresh) = map clientQueueId fresh"
    using tr by (auto simp: assms(3) truthy_def filter_id_conv)
  then have ids: "existingIds ?sh' = existingIds sh @ map clientQueueId fresh"
    by (simp add: existingIds_append[OF ne])
  have known: "clientQueueId i \<in> set (existingIds ?sh')" if "i \<in> set dataArray" for i
  proof (cases "clientQueueId i \<in> set (existingIds sh)")
    case True
    then show ?thesis by (simp add: ids)
  next
    case False
    with that have "i \<in> set fresh" by (simp add: assms(3))
    then show ?thesis by (simp add: ids)
  qed
  have "filter (\<lambda>i. \<not> (truthy (clientQueueId i) \<and> clientQueueId i \<in> set (existingIds ?sh'))) dataArray = []"
    using tr known by (auto simp: truthy_def filter_empty_conv)
  then have none: "rowsToAdd (existingIds ?sh') nowStr' dataArray = []"
    by (simp add: rowsToAdd_filter)
  show "saveBatchToKiemKeSheet dataArray True nowStr' (Some ?sh') = Inr (Some ?sh', 0)"
    using saveBatch_result[OF assms(1), of nowStr' "Some ?sh'"] none by simp
qed

text \<open>
  Two items with the ids \<open>q-1001\<close> and \<open>q-1002\<close>, sent to a file that has no sheet yet
  and then sent again.
\<close>

lemma saveBatch_skips_known_ids_example:
  "twoItems \<noteq> [] \<and> list_all (\<lambda>i. clientQueueId i \<noteq> []) twoItems \<and>
   saveBatchToKiemKeSheet twoItems True ''03/11/2026 10:00:00'' None =
     Inr (Some ([HEADER] @ map (sheetRow ''03/11/2026 10:00:00'') twoItems), 2) \<and>
   saveBatchToKiemKeSheet twoItems True ''03/11/2026 10:00:05''
       (Some ([HEADER] @ map (sheetRow ''03/11/2026 10:00:00'') twoItems)) =
     Inr (Some ([HEADER] @ map (sheetRow ''03/11/2026 10:00:00'') twoItems), 0)"
proof -
  have n: "twoItems \<noteq> []" and t: "list_all (\<lambda>i. clientQueueId i \<noteq> []) twoItems"
    by (simp_all add: twoItems_def)
  have s: "[HEADER] = (case None :: sheet option of None \<Rightarrow> [HEADER] | Some x \<Rightarrow> x)"
    by simp
  have f: "twoItems = filter (\<lambda>i. \<not> (clientQueueId i \<noteq> [] \<and> clientQueueId i \<in> set (existingIds [HEADER]))) twoItems"
    by (simp add: existingIds_eq)
  have l: "length twoItems = 2" by (simp add: twoItems_def)
  from saveBatch_skips_known_ids[OF n s f, of "''03/11/2026 10:00:00''" "''03/11/2026 10:00:05''"] n t l
  show ?thesis by simp
qed

lemma updateCache_packageId:
  "packageId item \<noteq> [] \<Longrightarrow> updateCache item c (toLowerCase (packageId item)) = Some item"
  by (simp add: updateCache_def truthy_def Let_def)

lemma updateCache_sku:
  "sku item \<noteq> [] \<Longrightarrow> updateCache item c (toLowerCase (sku item)) = Some item"
  by (simp add: updateCache_def truthy_def Let_def)

lemma updateCache_other:
  "k \<noteq> toLowerCase (sku item) \<Longrightarrow> k \<noteq> toLowerCase (packageId item) \<Longrightarrow>
   updateCache item c k = c k"
  by (simp add: updateCache_def Let_def)

text \<open>
  A record is found again under each of its alias keys that carries no white space at
  either end, however the input is cased.
\<close>

lemma handleSearch_cache_hit:
  assumes "k = sku item \<or> k = packageId item" and "k \<noteq> []" and "trim k = k"
    and "toLowerCase (trim code) = toLowerCase k"
  shows "handleSearch_cache code (updateCache item c) = Some item"
proof -
  from assms(1,2) have "updateCache item c (toLowerCase k) = Some item"
    by (auto simp: updateCache_sku updateCache_packageId)
  with assms(4) show ?thesis
    by (simp add: handleSearch_cache_def Let_def dom_def)
qed

text \<open>
  The write of the success branch is followed by the effects of the next render: while
  operations remain the interval stays at the burst value, and when the success has
  emptied the queue the trigger loop puts the steady value back.
\<close>

lemma interval_after_success_and_effects:
  assumes "offlineQueue (hook s) \<noteq> []" "\<not> isSyncingRef (hook s)" "inflight s = []"
  shows "syncIntervalMs (hook (step (Settle Resolved) (step (Trigger True) s))) =
           (if length (offlineQueue (hook s)) \<le> BATCH_SIZE then 10000 else 1000)"
  unfolding step_Trigger_idle[OF assms(1,2)] using assms(1,3)
  by (simp add: step_def processSyncQueue_resolved_def effect_defs)

text \<open>The early return on an empty batch, and the throw when the lock is not obtained.\<close>

lemma saveBatch_empty: "saveBatchToKiemKeSheet [] lockOk nowStr store = Inr (store, 0)"
  by (simp add: saveBatchToKiemKeSheet_def)

lemma saveBatch_no_lock:
  "dataArray \<noteq> [] \<Longrightarrow> saveBatchToKiemKeSheet dataArray False nowStr store = Inl ''Lock timeout''"
  by (simp add: saveBatchToKiemKeSheet_def)

lemma enqueues_keep_interval:
  "list_all isEnqueue es \<Longrightarrow> syncIntervalMs (hook (run es s)) = syncIntervalMs (hook s)"
proof (induction es arbitrary: s)
  case Nil
  then show ?case by simp
next
  case (Cons e es)
  from Cons.prems obtain item nowId nowTs where e: "e = Enqueue item nowId nowTs"
    by (cases e) simp_all
  have "syncIntervalMs (hook (step e s)) = syncIntervalMs (hook s)"
    by (simp add: e step_def addToQueue_def)
  with Cons show ?case by simp
qed

lemma twelve_interval: "syncIntervalMs (hook (run twelveEnqueues (initSys []))) = 10000"
proof -
  have "list_all isEnqueue twelveEnqueues" by (simp add: twelveEnqueues_def)
  from enqueues_keep_interval[OF this, of "initSys []"] show ?thesis
    by (simp add: initSys_def initState_def)
qed

lemma interval_step_Resolved:
  "inflight s = c # cs \<Longrightarrow> offlineQueue (hook s) \<noteq> [] \<Longrightarrow>
   syncIntervalMs (hook (step (Settle Resolved) s)) =
     (if drop (length (batch c)) (offlineQueue (hook s)) = [] then 10000 else 1000)"
  by (auto simp: step_def processSyncQueue_resolved_def effect_defs)

text \<open>
  What a dispatch leaves in flight, and what the events before its completion can change.
\<close>

lemma dispatch_in_flight:
  assumes "offlineQueue (hook s) \<noteq> []" "\<not> isSyncingRef (hook s)" "inflight s = []"
    and "list_all (\<lambda>e. \<not> isSettle e) es"
  shows "inflight (run es (step (Trigger True) s)) =
           [\<lparr>batch = take BATCH_SIZE (offlineQueue (hook s)),
             closureIntervalMs = syncIntervalMs (hook s)\<rparr>]"
    and "offlineQueue (hook (run es (step (Trigger True) s))) = offlineQueue (hook s) @ enqueued es"
proof -
  let ?s1 = "step (Trigger True) s"
  note g = step_Trigger_idle[OF assms(1,2)]
  have ref: "isSyncingRef (hook ?s1)" and ne: "offlineQueue (hook ?s1) \<noteq> []"
    and q1: "offlineQueue (hook ?s1) = offlineQueue (hook s)"
    and fl: "inflight ?s1 = [\<lparr>batch = take BATCH_SIZE (offlineQueue (hook s)),
                                closureIntervalMs = syncIntervalMs (hook s)\<rparr>]"
    unfolding g using assms(1,3) by simp_all
  note r = run_inflight[OF ref ne assms(4)]
  from r fl show "inflight (run es ?s1) =
           [\<lparr>batch = take BATCH_SIZE (offlineQueue (hook s)),
             closureIntervalMs = syncIntervalMs (hook s)\<rparr>]" by simp
  from r q1 show "offlineQueue (hook (run es ?s1)) = offlineQueue (hook s) @ enqueued es" by simp
qed

lemma drop_batch_empty:
  "(drop (length (take BATCH_SIZE q)) (q @ xs) = []) = (length q \<le> 5 \<and> xs = [])"
  by (auto simp: BATCH_SIZE_def min_def)

section \<open>The claims\<close>

subsection \<open>C1\<close>

text \<open>
  Claim C1 at a sheet \<open>KIEMKE\<close> that exists and has no row at all, not even the header
  (the code writes the header only when it creates the sheet). The first row written
  lands in row 1, and the id check reads column 20 from row 2 on and only when
  \<open>lastRow > 1\<close>: the item with the id \<open>q-1001\<close> is written, its id stands in column 20,
  and the same batch submitted again is written again with \<open>added = 1\<close>. On a sheet
  with its header the second submission is skipped, \<open>added = 0\<close>, as the comment on the
  check (idempotency) intends; that case in general is \<open>saveBatch_skips_known_ids\<close>.
\<close>

theorem rowless_sheet_resubmission_duplicates:
  "saveBatchToKiemKeSheet [\<lparr>payload = roll ''S01'' ''P01'', clientQueueId = ''q-1001''\<rparr>] True
       ''03/11/2026 10:00:00'' (Some []) =
     Inr (Some [sheetRow ''03/11/2026 10:00:00''
                  \<lparr>payload = roll ''S01'' ''P01'', clientQueueId = ''q-1001''\<rparr>], 1) \<and>
   cell (sheetRow ''03/11/2026 10:00:00''
           \<lparr>payload = roll ''S01'' ''P01'', clientQueueId = ''q-1001''\<rparr>) 20 = ''q-1001'' \<and>
   saveBatchToKiemKeSheet [\<lparr>payload = roll ''S01'' ''P01'', clientQueueId = ''q-1001''\<rparr>] True
       ''03/11/2026 10:00:05''
       (Some [sheetRow ''03/11/2026 10:00:00''
                \<lparr>payload = roll ''S01'' ''P01'', clientQueueId = ''q-1001''\<rparr>]) =
     Inr (Some [sheetRow ''03/11/2026 10:00:00''
                  \<lparr>payload = roll ''S01'' ''P01'', clientQueueId = ''q-1001''\<rparr>,
                sheetRow ''03/11/2026 10:00:05''
                  \<lparr>payload = roll ''S01'' ''P01'', clientQueueId = ''q-1001''\<rparr>], 1) \<and>
   saveBatchToKiemKeSheet [\<lparr>payload = roll ''S01'' ''P01'', clientQueueId = ''q-1001''\<rparr>] True
       ''03/11/2026 10:00:05''
       (Some [HEADER, sheetRow ''03/11/2026 10:00:00''
                \<lparr>payload = roll ''S01'' ''P01'', clientQueueId = ''q-1001''\<rparr>]) =
     Inr (Some [HEADER, sheetRow ''03/11/2026 10:00:00''
                  \<lparr>payload = roll ''S01'' ''P01'', clientQueueId = ''q-1001''\<rparr>], 0)"
  by (simp add: saveBatch_result existingIds_eq truthy_def cell_sheetRow)

subsection \<open>C2\<close>

text \<open>
  Claim C2. From a state in which a dispatch can start (the queue is not empty, no
  dispatch is in flight, the device is online), one trigger issues exactly one call,
  whose argument is the first \<open>min n 5\<close> operations of the queue of length \<open>n\<close>, in
  queue order, each as its payload with its queue id as \<open>_clientQueueId\<close>; when that call
  resolves, the queue has lost exactly those \<open>min n 5\<close> elements from its front. With 12
  operations queued and every dispatch resolving, the trigger loop issues three calls:
  the operations 1 to 5, 6 to 10 and 11 to 12 of the queue, of sizes 5, 5 and 2, and
  leaves the queue empty.
\<close>

theorem dispatch_batching:
  assumes "offlineQueue (hook s) \<noteq> []" and "\<not> isSyncingRef (hook s)" and "inflight s = []"
  shows "sent (step (Trigger True) s) =
           sent s @ [map (\<lambda>b. \<lparr>payload = data b, clientQueueId = id_q b\<rparr>)
                       (take (min (length (offlineQueue (hook s))) 5) (offlineQueue (hook s)))] \<and>
         offlineQueue (hook (step (Settle Resolved) (step (Trigger True) s))) =
           drop (min (length (offlineQueue (hook s))) 5) (offlineQueue (hook s)) \<and>
         (length (offlineQueue (hook s)) = 12 \<longrightarrow>
            sent (drain s) =
              sent s @
              [map (\<lambda>b. \<lparr>payload = data b, clientQueueId = id_q b\<rparr>) (take 5 (offlineQueue (hook s))),
               map (\<lambda>b. \<lparr>payload = data b, clientQueueId = id_q b\<rparr>)
                 (take 5 (drop 5 (offlineQueue (hook s)))),
               map (\<lambda>b. \<lparr>payload = data b, clientQueueId = id_q b\<rparr>)
                 (drop 10 (offlineQueue (hook s)))] \<and>
            map length (sent (drain s)) = map length (sent s) @ [5, 5, 2] \<and>
            offlineQueue (hook (drain s)) = [])"
proof (intro conjI impI)
  show "sent (step (Trigger True) s) =
           sent s @ [map (\<lambda>b. \<lparr>payload = data b, clientQueueId = id_q b\<rparr>)
                       (take (min (length (offlineQueue (hook s))) 5) (offlineQueue (hook s)))]"
    unfolding take_min_batch step_Trigger_idle[OF assms(1,2)] by (simp add: batchItems_def)
  show "offlineQueue (hook (step (Settle Resolved) (step (Trigger True) s))) =
           drop (min (length (offlineQueue (hook s))) 5) (offlineQueue (hook s))"
    by (simp only: cycle_Resolved(1)[OF assms] drop_min_batch)
  assume len: "length (offlineQueue (hook s)) = 12"
  show calls: "sent (drain s) =
              sent s @
              [map (\<lambda>b. \<lparr>payload = data b, clientQueueId = id_q b\<rparr>) (take 5 (offlineQueue (hook s))),
               map (\<lambda>b. \<lparr>payload = data b, clientQueueId = id_q b\<rparr>)
                 (take 5 (drop 5 (offlineQueue (hook s)))),
               map (\<lambda>b. \<lparr>payload = data b, clientQueueId = id_q b\<rparr>)
                 (drop 10 (offlineQueue (hook s)))]"
    using drain_sent[OF assms(2,3)] by (simp add: batches_12[OF len] batchItems_def)
  show "map length (sent (drain s)) = map length (sent s) @ [5, 5, 2]"
    unfolding calls using len by simp
  show "offlineQueue (hook (drain s)) = []"
    using drain_sent[OF assms(2,3)] by simp
qed

text \<open>
  C2 at an instance: twelve enqueues into the empty queue, then the trigger loop; the
  ids and the \<open>sku\<close> fields of the three calls.
\<close>

theorem dispatch_batching_witness:
  "offlineQueue (hook (run twelveEnqueues (initSys []))) \<noteq> [] \<and>
   length (offlineQueue (hook (run twelveEnqueues (initSys [])))) = 12 \<and>
   map (map clientQueueId) (sent (drain (run twelveEnqueues (initSys [])))) =
     [[''q-1001'', ''q-1002'', ''q-1003'', ''q-1004'', ''q-1005''],
      [''q-1006'', ''q-1007'', ''q-1008'', ''q-1009'', ''q-1010''],
      [''q-1011'', ''q-1012'']] \<and>
   map (map (\<lambda>i. sku (payload i))) (sent (drain (run twelveEnqueues (initSys [])))) =
     [[''S01'', ''S02'', ''S03'', ''S04'', ''S05''],
      [''S06'', ''S07'', ''S08'', ''S09'', ''S10''],
      [''S11'', ''S12'']] \<and>
   offlineQueue (hook (drain (run twelveEnqueues (initSys [])))) = []"
proof -
  let ?s = "run twelveEnqueues (initSys [])"
  have q: "offlineQueue (hook ?s) \<noteq> []" and l: "length (offlineQueue (hook ?s)) = 12"
    by (simp_all only: twelve_state(1)) (simp_all add: twelveEnqueues_def)
  from dispatch_batching[OF q twelve_state(2,3)] l
  have calls: "sent (drain ?s) =
      sent ?s @
      [map (\<lambda>b. \<lparr>payload = data b, clientQueueId = id_q b\<rparr>) (take 5 (offlineQueue (hook ?s))),
       map (\<lambda>b. \<lparr>payload = data b, clientQueueId = id_q b\<rparr>) (take 5 (drop 5 (offlineQueue (hook ?s)))),
       map (\<lambda>b. \<lparr>payload = data b, clientQueueId = id_q b\<rparr>) (drop 10 (offlineQueue (hook ?s)))]"
    and e: "offlineQueue (hook (drain ?s)) = []"
    by blast+
  have ids: "map (map clientQueueId) (sent (drain ?s)) =
     [[''q-1001'', ''q-1002'', ''q-1003'', ''q-1004'', ''q-1005''],
      [''q-1006'', ''q-1007'', ''q-1008'', ''q-1009'', ''q-1010''],
      [''q-1011'', ''q-1012'']]"
    unfolding calls twelve_state(1,4)
    by (simp add: twelveEnqueues_def queueItem_def dec.simps digit_def)
  have skus: "map (map (\<lambda>i. sku (payload i))) (sent (drain ?s)) =
     [[''S01'', ''S02'', ''S03'', ''S04'', ''S05''],
      [''S06'', ''S07'', ''S08'', ''S09'', ''S10''],
      [''S11'', ''S12'']]"
    unfolding calls twelve_state(1,4)
    by (simp add: twelveEnqueues_def queueItem_def roll_def)
  from q l ids skus e show ?thesis by blast
qed

subsection \<open>C3\<close>

text \<open>
  Claim C3. A rejected call leaves the queue and the session total as it finds them at
  completion time. From a reachable state in which a dispatch can start, a dispatch
  that starts and is rejected with nothing happening in between gives back the state it
  started from with one cell changed, \<open>syncIntervalMs\<close>, which is now
  \<open>min (2 * interval) 300000\<close>: the two flags are false again and no call is left in
  flight. A notification that the rejection may show is output, not state.
\<close>

theorem failure_leaves_queue:
  "offlineQueue (hook (step (Settle (Rejected msg)) s)) = offlineQueue (hook s) \<and>
   sessionTotal (hook (step (Settle (Rejected msg)) s)) = sessionTotal (hook s) \<and>
   (s = run es (initSys q) \<and> offlineQueue (hook s) \<noteq> [] \<and> inflight s = [] \<longrightarrow>
      hook (run [Trigger True, Settle (Rejected msg)] s) =
        (hook s)\<lparr>syncIntervalMs := min (syncIntervalMs (hook s) * 2) 300000\<rparr> \<and>
      inflight (run [Trigger True, Settle (Rejected msg)] s) = [])"
proof (intro conjI impI)
  show "offlineQueue (hook (step (Settle (Rejected msg)) s)) = offlineQueue (hook s)"
    by (rule queue_step_Rejected)
  show "sessionTotal (hook (step (Settle (Rejected msg)) s)) = sessionTotal (hook s)"
    by (rule total_step_Rejected)
next
  assume a: "s = run es (initSys q) \<and> offlineQueue (hook s) \<noteq> [] \<and> inflight s = []"
  then have g: "guarded s" by (simp add: guarded_reachable)
  with a have ref: "\<not> isSyncingRef (hook s)" and vis: "\<not> isSyncing (hook s)"
    by (auto simp: guarded_def)
  from a have ne: "offlineQueue (hook s) \<noteq> []" and fl: "inflight s = []" by blast+
  show "hook (run [Trigger True, Settle (Rejected msg)] s) =
        (hook s)\<lparr>syncIntervalMs := min (syncIntervalMs (hook s) * 2) 300000\<rparr>"
    using ref vis by (simp only: fail_cycle[OF ne ref fl]) (cases "hook s", simp)
  show "inflight (run [Trigger True, Settle (Rejected msg)] s) = []"
    using fl by (simp only: fail_cycle[OF ne ref fl]) simp
qed

text \<open>
  C3 at an instance: one operation queued, one dispatch rejected.
\<close>

theorem failure_leaves_queue_witness:
  "offlineQueue (hook oneQueued) \<noteq> [] \<and> inflight oneQueued = [] \<and>
   hook (run [Trigger True, Settle (Rejected ''Failed to fetch'')] oneQueued) =
     (hook oneQueued)\<lparr>syncIntervalMs := 20000\<rparr> \<and>
   offlineQueue (hook (run [Trigger True, Settle (Rejected ''Failed to fetch'')] oneQueued)) =
     [queueItem (roll ''S01'' ''P01'') 1001 1001]"
proof -
  have r: "oneQueued = run [Enqueue (roll ''S01'' ''P01'') 1001 1001] (initSys [])"
    by (simp add: oneQueued_def)
  have q: "offlineQueue (hook oneQueued) \<noteq> []" and f: "inflight oneQueued = []"
    by (simp_all add: oneQueued_eval)
  from failure_leaves_queue[of "''Failed to fetch''" oneQueued "[Enqueue (roll ''S01'' ''P01'') 1001 1001]" "[]"] r q f
  have "hook (run [Trigger True, Settle (Rejected ''Failed to fetch'')] oneQueued) =
        (hook oneQueued)\<lparr>syncIntervalMs := min (syncIntervalMs (hook oneQueued) * 2) 300000\<rparr>"
    by blast
  then show ?thesis using q f by (simp add: oneQueued_eval)
qed

subsection \<open>C4\<close>

text \<open>
  Claim C4. When the queue is empty, or the in-flight flag is set, or
  \<open>navigator.onLine\<close> is false, \<open>processSyncQueue\<close> returns at its guard: no call is
  issued and the whole state, the log of the calls included, is what it was. In every
  state that the engine reaches from a loaded queue by any sequence of events, at most
  one call is in flight, and while one is, a further trigger is such a no-op.
\<close>

theorem trigger_guard_noop:
  "(offlineQueue (hook s) = [] \<or> isSyncingRef (hook s) \<or> \<not> onLine \<longrightarrow>
      processSyncQueue_begin onLine (hook s) = None \<and> step (Trigger onLine) s = s) \<and>
   length (inflight (run es (initSys q))) \<le> 1 \<and>
   (inflight (run es (initSys q)) \<noteq> [] \<longrightarrow>
      step (Trigger onLine) (run es (initSys q)) = run es (initSys q))"
proof (intro conjI impI)
  assume "offlineQueue (hook s) = [] \<or> isSyncingRef (hook s) \<or> \<not> onLine"
  then show "processSyncQueue_begin onLine (hook s) = None" "step (Trigger onLine) s = s"
    by (auto simp: processSyncQueue_begin_def step_Trigger_noop)
next
  show "length (inflight (run es (initSys q))) \<le> 1"
    using guarded_reachable[of es q] by (simp add: guarded_def)
next
  assume "inflight (run es (initSys q)) \<noteq> []"
  with guarded_reachable[of es q] have "isSyncingRef (hook (run es (initSys q)))"
    by (simp add: guarded_def)
  then show "step (Trigger onLine) (run es (initSys q)) = run es (initSys q)"
    by (simp add: step_Trigger_noop)
qed

text \<open>
  C4 at an instance: three triggers in a row on one queued operation issue one call; a
  trigger while offline, and a trigger on the empty queue, change nothing.
\<close>

theorem trigger_guard_noop_witness:
  "inflight (run [Trigger True] oneQueued) \<noteq> [] \<and>
   step (Trigger True) (run [Trigger True] oneQueued) = run [Trigger True] oneQueued \<and>
   sent (run [Trigger True, Trigger True, Trigger True] oneQueued) =
     [batchItems [queueItem (roll ''S01'' ''P01'') 1001 1001]] \<and>
   length (inflight (run [Trigger True, Trigger True, Trigger True] oneQueued)) = 1 \<and>
   step (Trigger False) oneQueued = oneQueued \<and>
   step (Trigger True) (initSys []) = initSys []"
proof -
  have r: "run [Trigger True] oneQueued =
           run [Enqueue (roll ''S01'' ''P01'') 1001 1001, Trigger True] (initSys [])"
    by (simp add: oneQueued_def)
  have f: "inflight (run [Trigger True] oneQueued) \<noteq> []"
    by (simp add: oneQueued_eval eval_defs)
  from trigger_guard_noop[of "initSys []" True "[Enqueue (roll ''S01'' ''P01'') 1001 1001, Trigger True]" "[]"] r f
  have a: "step (Trigger True) (run [Trigger True] oneQueued) = run [Trigger True] oneQueued"
    and b: "step (Trigger True) (initSys []) = initSys []"
    by (simp_all add: initSys_def initState_def)
  from trigger_guard_noop[of oneQueued False "[]" "[]"]
  have c: "step (Trigger False) oneQueued = oneQueued" by simp
  have "run [Trigger True, Trigger True, Trigger True] oneQueued = run [Trigger True] oneQueued"
    using a by simp
  then show ?thesis using a b c f by (simp only:) (simp add: oneQueued_eval eval_defs)
qed

subsection \<open>C5\<close>

text \<open>
  Claim C5, as the code has it. From a state with an interval between 1000 and 300000
  in which a dispatch can start: a rejected dispatch sets the interval to
  \<open>min (2 * interval) 300000\<close>, where the interval doubled is the one current when the
  rejection is handled, whatever happened while the call was in flight; after any
  number \<open>n\<close> of rejected dispatches in a row the interval is at most 300000, and it
  is exactly 300000 once \<open>n \<ge> 9\<close>. A resolved dispatch after such a streak leaves the
  interval at 1000 when operations remain in the queue, and at the steady 10000 when it
  has emptied the queue: the success writes 1000 and, the queue being empty, the
  trigger loop resets the interval in the same event. A trigger is an event here,
  whoever fires it.
\<close>

theorem backoff_bounds:
  assumes "1000 \<le> syncIntervalMs (hook s)" and "syncIntervalMs (hook s) \<le> 300000"
    and "offlineQueue (hook s) \<noteq> []" and "\<not> isSyncingRef (hook s)" and "inflight s = []"
    and "list_all (\<lambda>e. \<not> isSettle e) es"
  shows "syncIntervalMs (hook (run [Trigger True, Settle (Rejected msg)] s)) =
           min (2 * syncIntervalMs (hook s)) 300000 \<and>
         syncIntervalMs (hook (step (Settle (Rejected msg)) (run es (step (Trigger True) s)))) =
           min (2 * syncIntervalMs (hook (run es (step (Trigger True) s)))) 300000 \<and>
         syncIntervalMs (hook (run (failStreak n msg) s)) \<le> 300000 \<and>
         (9 \<le> n \<longrightarrow> syncIntervalMs (hook (run (failStreak n msg) s)) = 300000) \<and>
         syncIntervalMs (hook (run (failStreak n msg @ [Trigger True, Settle Resolved]) s)) =
           (if length (offlineQueue (hook s)) \<le> 5 then 10000 else 1000) \<and>
         syncIntervalMs (hook (step (Settle Resolved)
             (run es (step (Trigger True) (run (failStreak n msg) s))))) =
           (if length (offlineQueue (hook s)) \<le> 5 \<and> enqueued es = [] then 10000 else 1000)"
proof (intro conjI impI)
  note idle = assms(3-5)
  show "syncIntervalMs (hook (run [Trigger True, Settle (Rejected msg)] s)) =
           min (2 * syncIntervalMs (hook s)) 300000"
    by (simp only: fail_cycle[OF idle]) (simp add: mult.commute)
  note fl = dispatch_in_flight[OF idle assms(6)]
  from fl(2) idle(1) have ne: "offlineQueue (hook (run es (step (Trigger True) s))) \<noteq> []"
    by simp
  show "syncIntervalMs (hook (step (Settle (Rejected msg)) (run es (step (Trigger True) s)))) =
           min (2 * syncIntervalMs (hook (run es (step (Trigger True) s)))) 300000"
    by (simp add: interval_step_Rejected[OF fl(1) ne] mult.commute)
  note iv = failStreak_interval[OF idle assms(2), of n msg]
  show "syncIntervalMs (hook (run (failStreak n msg) s)) \<le> 300000"
    by (simp add: iv)
  let ?t = "run (failStreak n msg) s"
  from failStreak_idle[OF idle, of n msg]
  have tq: "offlineQueue (hook ?t) = offlineQueue (hook s)"
    and t: "offlineQueue (hook ?t) \<noteq> []" "\<not> isSyncingRef (hook ?t)" "inflight ?t = []"
    using idle(1) by simp_all
  have "syncIntervalMs (hook (step (Settle Resolved) (step (Trigger True) ?t))) =
          (if length (offlineQueue (hook s)) \<le> 5 then 10000 else 1000)"
    by (simp add: interval_after_success_and_effects[OF t] tq BATCH_SIZE_def)
  then show "syncIntervalMs (hook (run (failStreak n msg @ [Trigger True, Settle Resolved]) s)) =
           (if length (offlineQueue (hook s)) \<le> 5 then 10000 else 1000)"
    by (simp only: run_append run_Cons run_Nil)
  note flt = dispatch_in_flight[OF t assms(6)]
  from flt(2) t(1) have net: "offlineQueue (hook (run es (step (Trigger True) ?t))) \<noteq> []"
    by simp
  show "syncIntervalMs (hook (step (Settle Resolved) (run es (step (Trigger True) ?t)))) =
           (if length (offlineQueue (hook s)) \<le> 5 \<and> enqueued es = [] then 10000 else 1000)"
    unfolding interval_step_Resolved[OF flt(1) net] flt(2)
    by (simp only: Closure.simps drop_batch_empty tq)
next
  assume n: "9 \<le> n"
  have "(1000::int) * 512 \<le> syncIntervalMs (hook s) * 2 ^ n"
    using assms(1) power2_ge_512[OF n] by (intro mult_mono) simp_all
  then show "syncIntervalMs (hook (run (failStreak n msg) s)) = 300000"
    by (simp add: failStreak_interval[OF assms(3-5) assms(2), of n msg])
qed

text \<open>
  C5 at an instance, twelve operations queued at the steady 10000: one failure gives
  20000; a failure handled after an online event has set the interval to 100 gives 200;
  nine failures give 300000; and the success after nine failures leaves 1000, seven
  operations remaining.
\<close>

theorem backoff_bounds_witness:
  "1000 \<le> syncIntervalMs (hook (run twelveEnqueues (initSys []))) \<and>
   syncIntervalMs (hook (run twelveEnqueues (initSys []))) \<le> 300000 \<and>
   syncIntervalMs (hook (run [Trigger True, Settle (Rejected ''Failed to fetch'')]
       (run twelveEnqueues (initSys [])))) = 20000 \<and>
   syncIntervalMs (hook (run [Online] (step (Trigger True) (run twelveEnqueues (initSys []))))) = 100 \<and>
   syncIntervalMs (hook (step (Settle (Rejected ''Failed to fetch''))
       (run [Online] (step (Trigger True) (run twelveEnqueues (initSys [])))))) = 200 \<and>
   syncIntervalMs (hook (run (failStreak 9 ''Failed to fetch'') (run twelveEnqueues (initSys [])))) = 300000 \<and>
   syncIntervalMs (hook (run (failStreak 9 ''Failed to fetch'' @ [Trigger True, Settle Resolved])
       (run twelveEnqueues (initSys [])))) = 1000"
proof -
  let ?s = "run twelveEnqueues (initSys [])"
  have q: "offlineQueue (hook ?s) \<noteq> []" and l: "length (offlineQueue (hook ?s)) = 12"
    by (simp_all only: twelve_state(1)) (simp_all add: twelveEnqueues_def)
  have h: "1000 \<le> syncIntervalMs (hook ?s)" "syncIntervalMs (hook ?s) \<le> 300000"
    by (simp_all add: twelve_interval)
  have es: "list_all (\<lambda>e. \<not> isSettle e) [Online]" by simp
  have o: "syncIntervalMs (hook (run [Online] (step (Trigger True) ?s))) = 100"
    unfolding step_Trigger_idle[OF q twelve_state(2)] using q
    by (simp add: step_def handleOnline_def)
  from backoff_bounds[OF h q twelve_state(2,3) es, of "''Failed to fetch''" 9] h l o
  show ?thesis by (simp add: twelve_interval)
qed

text \<open>
  C5 does not hold for every success. With one operation queued, three failures raise
  the interval to 80000; the dispatch that then resolves empties the queue, and the
  interval after it is 10000, not 1000.
\<close>

theorem success_emptying_queue_ends_at_steady_interval:
  "syncIntervalMs (hook (run (failStreak 3 ''Failed to fetch'') oneQueued)) = 80000 \<and>
   offlineQueue (hook (run (failStreak 3 ''Failed to fetch'' @ [Trigger True, Settle Resolved]) oneQueued)) = [] \<and>
   syncIntervalMs (hook (run (failStreak 3 ''Failed to fetch'' @ [Trigger True, Settle Resolved]) oneQueued)) = 10000"
proof -
  let ?t = "run (failStreak 3 ''Failed to fetch'') oneQueued"
  note t = oneQueued_streak3[of "''Failed to fetch''"]
  from failStreak_idle[OF oneQueued_idle, of 3 "''Failed to fetch''"]
  have q: "offlineQueue (hook ?t) = [queueItem (roll ''S01'' ''P01'') 1001 1001]"
    by (simp add: oneQueued_eval)
  have a: "offlineQueue (hook (step (Settle Resolved) (step (Trigger True) ?t))) = []"
    by (simp add: cycle_Resolved(1)[OF t(3,4,5)] q BATCH_SIZE_def)
  have b: "syncIntervalMs (hook (step (Settle Resolved) (step (Trigger True) ?t))) = 10000"
    by (simp add: interval_after_success_and_effects[OF t(3,4,5)] q BATCH_SIZE_def)
  from t(1) a b show ?thesis by simp
qed

subsection \<open>C6\<close>



subsection \<open>C7\<close>

text \<open>
  Claim C7 at a record whose \<open>packageId\<close> ends in a space. \<open>updateCache\<close> stores the
  record under the lower-cased \<open>packageId\<close> with the space kept, whereas \<open>handleSearch\<close>
  trims its input before the lookup: the record is served from the cache by its \<open>sku\<close>,
  and the lookup by its \<open>packageId\<close> misses. For an alias key without white space at
  either end the claim holds: \<open>handleSearch_cache_hit\<close>.
\<close>

theorem cache_misses_untrimmed_alias:
  "updateCache (roll ''ABC'' ''PKG-1 '') Map.empty ''pkg-1 '' = Some (roll ''ABC'' ''PKG-1 '') \<and>
   updateCache (roll ''ABC'' ''PKG-1 '') Map.empty ''pkg-1'' = None \<and>
   handleSearch_cache ''PKG-1 '' (updateCache (roll ''ABC'' ''PKG-1 '') Map.empty) = None \<and>
   handleSearch_cache ''ABC'' (updateCache (roll ''ABC'' ''PKG-1 '') Map.empty) =
     Some (roll ''ABC'' ''PKG-1 '')"
  by (simp add: handleSearch_cache_def updateCache_def roll_def truthy_def toLowerCase_def
      trim_def toLowerChar_def isWhiteSpace_def)

subsection \<open>C8\<close>

text \<open>
  Claim C8, as the code has it. An id is \<open>q-\<close> followed by the decimal clock reading of
  its enqueue. If the ids of the loaded queue are pairwise distinct, the clock readings
  of the enqueues of a trace are pairwise distinct, and none of them gives an id of the
  loaded queue, then after the trace, whatever else it contains, no two queue elements
  share an id.
\<close>

theorem ids_distinct_for_distinct_clock_readings:
  assumes "distinct (map id_q q)"
    and "distinct (stamps es)"
    and "list_all (\<lambda>t. ''q-'' @ dec t \<notin> set (map id_q q)) (stamps es)"
  shows "distinct (map id_q (offlineQueue (hook (run es (initSys q)))))"
  using run_ids_distinct[of "initSys q" es] assms
  by (simp add: initSys_def initState_def)

text \<open>
  C8 at an instance: twelve enqueues at twelve different clock readings into the empty
  queue, and one resolved dispatch.
\<close>

theorem ids_distinct_for_distinct_clock_readings_witness:
  "distinct (map id_q ([] :: QueueItem list)) \<and>
   distinct (stamps (twelveEnqueues @ [Trigger True, Settle Resolved])) \<and>
   distinct (map id_q (offlineQueue (hook (run (twelveEnqueues @ [Trigger True, Settle Resolved]) (initSys [])))))"
proof -
  have a: "distinct (map id_q ([] :: QueueItem list))" by simp
  have b: "distinct (stamps (twelveEnqueues @ [Trigger True, Settle Resolved]))"
    by (simp add: twelveEnqueues_def)
  have c: "list_all (\<lambda>t. ''q-'' @ dec t \<notin> set (map id_q ([] :: QueueItem list)))
             (stamps (twelveEnqueues @ [Trigger True, Settle Resolved]))"
    by (simp add: list_all_iff)
  from ids_distinct_for_distinct_clock_readings[OF a b c] a b show ?thesis by blast
qed

text \<open>
  C8 does not hold for every sequence of enqueues: two enqueues that read the same
  millisecond from the clock get the same id.
\<close>

theorem ids_collide_on_equal_clock_readings:
  "map id_q (offlineQueue (hook (run
      [Enqueue (roll ''S01'' ''P01'') 1700000000000 1700000000000,
       Enqueue (roll ''S02'' ''P02'') 1700000000000 1700000000001] (initSys [])))) =
     [''q-1700000000000'', ''q-1700000000000''] \<and>
   \<not> distinct (map id_q (offlineQueue (hook (run
      [Enqueue (roll ''S01'' ''P01'') 1700000000000 1700000000000,
       Enqueue (roll ''S02'' ''P02'') 1700000000000 1700000000001] (initSys [])))))"
proof -
  have d: "dec 1700000000000 = ''1700000000000''"
    by (simp add: dec.simps digit_def)
  have "list_all (\<lambda>e. \<not> isSettle e \<and> e \<noteq> Trigger True)
      [Enqueue (roll ''S01'' ''P01'') 1700000000000 1700000000000,
       Enqueue (roll ''S02'' ''P02'') 1700000000000 1700000000001]"
    by simp
  from enqueue_only_run[OF this, of "initSys []"]
  have "map id_q (offlineQueue (hook (run
      [Enqueue (roll ''S01'' ''P01'') 1700000000000 1700000000000,
       Enqueue (roll ''S02'' ''P02'') 1700000000000 1700000000001] (initSys [])))) =
     [''q-1700000000000'', ''q-1700000000000'']"
    by (simp add: initSys_def initState_def id_q_queueItem d)
  then show ?thesis by (simp only:) simp
qed

subsection \<open>C9\<close>

text \<open>
  Claim C9, as the code has it. The threshold test reads the \<open>syncIntervalMs\<close> that the
  closure of the dispatch captured, the interval that was current when the dispatch
  started. Whatever happens while the call is in flight, its rejection shows the error
  notification if and only if that interval exceeded 60000. From any positive interval,
  17 rejected dispatches in a row are enough for the notification to have been shown.
\<close>

theorem failure_notice_follows_dispatch_interval:
  assumes "offlineQueue (hook s) \<noteq> []" and "\<not> isSyncingRef (hook s)" and "inflight s = []"
    and "list_all (\<lambda>e. \<not> isSettle e) es"
  shows "shown (step (Settle (Rejected msg)) (run es (step (Trigger True) s))) =
           shown (run es (step (Trigger True) s)) @
             (if syncIntervalMs (hook s) > 60000 then [(SyncFailed msg, error)] else []) \<and>
         (0 < syncIntervalMs (hook s) \<longrightarrow>
            (SyncFailed msg, error) \<in> set (shown (run (failStreak 17 msg) s)))"
proof (intro conjI impI)
  let ?s1 = "step (Trigger True) s"
  note g = step_Trigger_idle[OF assms(1,2)]
  have ref: "isSyncingRef (hook ?s1)" and ne: "offlineQueue (hook ?s1) \<noteq> []"
    and fl: "inflight ?s1 = [\<lparr>batch = take BATCH_SIZE (offlineQueue (hook s)),
                                closureIntervalMs = syncIntervalMs (hook s)\<rparr>]"
    unfolding g using assms(1,3) by simp_all
  from run_inflight[OF ref ne assms(4)] fl
  have fl': "inflight (run es ?s1) = [\<lparr>batch = take BATCH_SIZE (offlineQueue (hook s)),
                                closureIntervalMs = syncIntervalMs (hook s)\<rparr>]" by simp
  show "shown (step (Settle (Rejected msg)) (run es ?s1)) =
           shown (run es ?s1) @
             (if syncIntervalMs (hook s) > 60000 then [(SyncFailed msg, error)] else [])"
    by (simp add: shown_step_Rejected[OF fl'])
next
  assume pos: "0 < syncIntervalMs (hook s)"
  let ?t = "run (failStreak 16 msg) s"
  have st: "offlineQueue (hook ?t) = offlineQueue (hook s) \<and>
         \<not> isSyncingRef (hook ?t) \<and> inflight ?t = [] \<and>
         syncIntervalMs (hook ?t) = min (syncIntervalMs (hook s) * 2 ^ 16) 300000"
    by (rule failStreak_state_pos[OF assms(1-3)]) simp
  from st assms(1) have t: "offlineQueue (hook ?t) \<noteq> []" "\<not> isSyncingRef (hook ?t)" "inflight ?t = []"
    by auto
  from st have iv: "syncIntervalMs (hook ?t) = min (syncIntervalMs (hook s) * 2 ^ 16) 300000"
    by blast
  from pos have "60000 < syncIntervalMs (hook s) * 2 ^ 16" by simp
  with iv have big: "60000 < syncIntervalMs (hook ?t)" by simp
  have "failStreak 17 msg = failStreak 16 msg @ [Trigger True, Settle (Rejected msg)]"
    using failStreak.simps(2)[of 16 msg] by simp
  then have r: "run (failStreak 17 msg) s = run [Trigger True, Settle (Rejected msg)] ?t"
    by (simp only: run_append)
  have "shown (run [Trigger True, Settle (Rejected msg)] ?t) = shown ?t @ [(SyncFailed msg, error)]"
    unfolding fail_cycle[OF t] using big by simp
  with r show "(SyncFailed msg, error) \<in> set (shown (run (failStreak 17 msg) s))" by simp
qed

text \<open>
  C9 at an instance: a dispatch started at the steady 10000 and rejected shows nothing,
  also when an online event came while it was in flight; 17 failures in a row show the
  error.
\<close>

theorem failure_notice_follows_dispatch_interval_witness:
  "offlineQueue (hook oneQueued) \<noteq> [] \<and> \<not> isSyncingRef (hook oneQueued) \<and> inflight oneQueued = [] \<and>
   0 < syncIntervalMs (hook oneQueued) \<and>
   shown (step (Settle (Rejected ''Failed to fetch'')) (run [Online] (step (Trigger True) oneQueued))) = [] \<and>
   (SyncFailed ''Failed to fetch'', error) \<in> set (shown (run (failStreak 17 ''Failed to fetch'') oneQueued))"
proof -
  have p: "0 < syncIntervalMs (hook oneQueued)" and le: "\<not> 60000 < syncIntervalMs (hook oneQueued)"
    by (simp_all add: oneQueued_eval)
  have es: "list_all (\<lambda>e. \<not> isSettle e) [Online]" by simp
  have sh: "shown (run [Online] (step (Trigger True) oneQueued)) = []"
    unfolding step_Trigger_idle[OF oneQueued_idle(1,2)]
    by (simp add: step_def handleOnline_def oneQueued_eval)
  from failure_notice_follows_dispatch_interval[OF oneQueued_idle es, of "''Failed to fetch''"] p
  have a: "shown (step (Settle (Rejected ''Failed to fetch'')) (run [Online] (step (Trigger True) oneQueued))) =
           shown (run [Online] (step (Trigger True) oneQueued)) @
             (if syncIntervalMs (hook oneQueued) > 60000 then [(SyncFailed ''Failed to fetch'', error)] else [])"
    and b: "(SyncFailed ''Failed to fetch'', error) \<in> set (shown (run (failStreak 17 ''Failed to fetch'') oneQueued))"
    by blast+
  from a sh le have "shown (step (Settle (Rejected ''Failed to fetch'')) (run [Online] (step (Trigger True) oneQueued))) = []"
    by (simp only: if_False append_Nil2)
  with b p oneQueued_idle show ?thesis by blast
qed

text \<open>
  C9 does not hold for the interval as it stands when the failure is handled. From the
  steady 10000, the third rejected dispatch in a row raises the interval to 80000 and
  shows nothing. And when the fourth dispatch is in flight and an online event sets the
  interval to 100, its rejection raises the interval to 200 and shows the error.
\<close>

theorem failure_notice_not_tied_to_current_interval:
  "syncIntervalMs (hook (run (failStreak 3 ''Failed to fetch'') oneQueued)) = 80000 \<and>
   shown (run (failStreak 3 ''Failed to fetch'') oneQueued) = [] \<and>
   syncIntervalMs (hook (run (failStreak 3 ''Failed to fetch'' @ [Trigger True, Online]) oneQueued)) = 100 \<and>
   syncIntervalMs (hook (run (failStreak 3 ''Failed to fetch'' @
       [Trigger True, Online, Settle (Rejected ''Failed to fetch'')]) oneQueued)) = 200 \<and>
   shown (run (failStreak 3 ''Failed to fetch'' @
       [Trigger True, Online, Settle (Rejected ''Failed to fetch'')]) oneQueued) =
     [(SyncFailed ''Failed to fetch'', error)]"
proof -
  let ?t = "run (failStreak 3 ''Failed to fetch'') oneQueued"
  let ?c = "\<lparr>batch = take BATCH_SIZE (offlineQueue (hook ?t)), closureIntervalMs = 80000\<rparr>"
  let ?s2 = "step Online (step (Trigger True) ?t)"
  note t = oneQueued_streak3[of "''Failed to fetch''"]
  note g = step_Trigger_idle[OF t(3,4)]
  have fl: "inflight ?s2 = [?c]" and q: "offlineQueue (hook ?s2) \<noteq> []"
    and i: "syncIntervalMs (hook ?s2) = 100" and sh: "shown ?s2 = []"
    unfolding g using t(1,2,3,5) by (simp_all add: step_def handleOnline_def)
  have b: "syncIntervalMs (hook (step (Settle (Rejected ''Failed to fetch'')) ?s2)) = 200"
    by (simp add: interval_step_Rejected[OF fl q] i)
  have c: "shown (step (Settle (Rejected ''Failed to fetch'')) ?s2) = [(SyncFailed ''Failed to fetch'', error)]"
    by (simp add: shown_step_Rejected[OF fl] sh)
  from t(1,2) i b c show ?thesis by simp
qed

subsection \<open>C10\<close>

text \<open>
  Claim C10. A dispatch starts from a state in which it can; while its call is in
  flight any events other than its completion happen, enqueues among them; then the
  call resolves. The queue is then the queue of the start without its first
  batch-length elements, followed by the operations enqueued in flight, in their order;
  the one call sent is the batch taken at the start.
\<close>

theorem enqueued_in_flight_survive:
  assumes "offlineQueue (hook s) \<noteq> []" and "\<not> isSyncingRef (hook s)" and "inflight s = []"
    and "list_all (\<lambda>e. \<not> isSettle e) es"
  shows "offlineQueue (hook (step (Settle Resolved) (run es (step (Trigger True) s)))) =
           drop (length (take BATCH_SIZE (offlineQueue (hook s)))) (offlineQueue (hook s)) @ enqueued es \<and>
         sent (run es (step (Trigger True) s)) =
           sent s @ [batchItems (take BATCH_SIZE (offlineQueue (hook s)))]"
proof -
  let ?s1 = "step (Trigger True) s"
  note t = step_Trigger_idle[OF assms(1,2)]
  have ref: "isSyncingRef (hook ?s1)" and ne: "offlineQueue (hook ?s1) \<noteq> []"
    and q1: "offlineQueue (hook ?s1) = offlineQueue (hook s)"
    and fl: "inflight ?s1 = [\<lparr>batch = take BATCH_SIZE (offlineQueue (hook s)),
                                closureIntervalMs = syncIntervalMs (hook s)\<rparr>]"
    and snt: "sent ?s1 = sent s @ [batchItems (take BATCH_SIZE (offlineQueue (hook s)))]"
    unfolding t using assms(1,3) by simp_all
  note r = run_inflight[OF ref ne assms(4)]
  from r fl have fl': "inflight (run es ?s1) = [\<lparr>batch = take BATCH_SIZE (offlineQueue (hook s)),
                                closureIntervalMs = syncIntervalMs (hook s)\<rparr>]" by simp
  have "offlineQueue (hook (step (Settle Resolved) (run es ?s1))) =
        drop (length (take BATCH_SIZE (offlineQueue (hook s)))) (offlineQueue (hook s) @ enqueued es)"
    using r q1 by (simp only: queue_step_Resolved[OF fl']) simp
  moreover have "length (take BATCH_SIZE (offlineQueue (hook s))) \<le> length (offlineQueue (hook s))"
    by simp
  ultimately show ?thesis using r snt by (simp del: length_take)
qed

text \<open>
  C10 at an instance: one operation queued and dispatched; two enqueues, a trigger and a
  manual sync while the call is in flight; after the success the queue holds the two
  new operations, in order.
\<close>

theorem enqueued_in_flight_survive_witness:
  "offlineQueue (hook oneQueued) \<noteq> [] \<and> \<not> isSyncingRef (hook oneQueued) \<and> inflight oneQueued = [] \<and>
   offlineQueue (hook (run [Trigger True, Enqueue (roll ''S02'' ''P02'') 1002 1002, Trigger True,
       ManualSync True, Enqueue (roll ''S03'' ''P03'') 1003 1003, Settle Resolved] oneQueued)) =
     [queueItem (roll ''S02'' ''P02'') 1002 1002, queueItem (roll ''S03'' ''P03'') 1003 1003]"
proof -
  have h: "offlineQueue (hook oneQueued) \<noteq> []" "\<not> isSyncingRef (hook oneQueued)" "inflight oneQueued = []"
    by (simp_all add: oneQueued_eval)
  have es: "list_all (\<lambda>e. \<not> isSettle e) [Enqueue (roll ''S02'' ''P02'') 1002 1002, Trigger True,
       ManualSync True, Enqueue (roll ''S03'' ''P03'') 1003 1003]"
    by simp
  from enqueued_in_flight_survive[OF h es] h show ?thesis
    by (simp add: oneQueued_eval BATCH_SIZE_def)
qed

end
